theory Spec2Isabelle
  imports Main "HOL-Library.Word" "HOL-Library.Monad_Syntax"
begin

unbundle bit_operations_syntax

section \<open>Data model\<close>

text \<open>
  The kernel works on buffers of unsigned bytes, one logical bit per byte, and on
  \<open>unsigned int\<close> scalars. A buffer is a list of bytes; a pointer into it is an offset.
  Reading or writing outside a buffer has no defined result in C, so every access is
  checked and the whole run yields \<open>None\<close> when one of them leaves its buffer.
  \<open>frame\<close>, \<open>temp\<close> and the three inputs are separate buffers, as the callers of the
  kernel have to provide them.
\<close>

type_synonym byte = "8 word"
type_synonym u32 = "32 word"

definition rd :: "byte list \<Rightarrow> nat \<Rightarrow> byte option" where
  "rd buf i = (if i < length buf then Some (buf ! i) else None)"

definition wr :: "byte list \<Rightarrow> nat \<Rightarrow> byte \<Rightarrow> byte list option" where
  "wr buf i v = (if i < length buf then Some (buf[i := v]) else None)"

text \<open>\<open>memcpy(dst, src, n)\<close> on two disjoint buffers.\<close>

definition memcpy :: "byte list \<Rightarrow> byte list \<Rightarrow> nat \<Rightarrow> byte list option" where
  "memcpy dst src n =
     (if n \<le> length dst \<and> n \<le> length src then Some (take n src @ drop n dst) else None)"

section \<open>log2\_of\_power\_of\_2\<close>

text \<open>The table \<open>b\<close>, local to the function.\<close>

definition log2_b :: "u32 list" where
  "log2_b = [0xAAAAAAAA, 0xCCCCCCCC, 0xF0F0F0F0, 0xFF00FF00, 0xFFFF0000]"

text \<open>The value of a C comparison: 1 when it holds, 0 otherwise.\<close>

definition c_bool :: "bool \<Rightarrow> u32" where
  "c_bool p = (if p then 1 else 0)"

definition log2_of_power_of_2 :: "u32 \<Rightarrow> u32" where
  "log2_of_power_of_2 val =
     (let res = c_bool (val AND log2_b ! 0 \<noteq> 0);
          res = res OR push_bit 4 (c_bool (val AND log2_b ! 4 \<noteq> 0));
          res = res OR push_bit 3 (c_bool (val AND log2_b ! 3 \<noteq> 0));
          res = res OR push_bit 2 (c_bool (val AND log2_b ! 2 \<noteq> 0));
          res = res OR push_bit 1 (c_bool (val AND log2_b ! 1 \<noteq> 0))
      in res)"

section \<open>interleave\_frozen\_and\_info\_bits\<close>

text \<open>
  \<open>bit_i\<close> is the counter \<open>bit\<close> of the source. \<open>target\<close> and \<open>frozen_bit_mask\<close>
  advance by one in every iteration, so both are at offset \<open>bit_i\<close>; \<open>frozen_bits\<close> and
  \<open>info_bits\<close> advance only when read, and their offsets \<open>fcur\<close> and \<open>icur\<close> are
  part of the loop state.
\<close>

function interleave_loop ::
  "nat \<Rightarrow> nat \<Rightarrow> byte list \<Rightarrow> byte list \<Rightarrow> byte list \<Rightarrow>
   byte list \<times> nat \<times> nat \<Rightarrow> (byte list \<times> nat \<times> nat) option" where
  "interleave_loop bit_i frame_size frozen_bit_mask frozen_bits info_bits (target, fcur, icur) =
     (if bit_i < frame_size then
        do {
          m \<leftarrow> rd frozen_bit_mask bit_i;
          (v, fcur', icur') \<leftarrow>
            (if m \<noteq> 0 then do { v \<leftarrow> rd frozen_bits fcur; Some (v, fcur + 1, icur) }
             else do { v \<leftarrow> rd info_bits icur; Some (v, fcur, icur + 1) });
          target' \<leftarrow> wr target bit_i v;
          interleave_loop (bit_i + 1) frame_size frozen_bit_mask frozen_bits info_bits
            (target', fcur', icur')
        }
      else Some (target, fcur, icur))"
  by pat_completeness auto
termination
  by (relation "measure (\<lambda>(bit_i, frame_size, _). frame_size - bit_i)") auto

declare interleave_loop.simps [simp del]

definition interleave_frozen_and_info_bits ::
  "byte list \<Rightarrow> byte list \<Rightarrow> byte list \<Rightarrow> byte list \<Rightarrow> u32 \<Rightarrow> byte list option" where
  "interleave_frozen_and_info_bits target frozen_bit_mask frozen_bits info_bits frame_size =
     map_option fst
       (interleave_loop 0 (unat frame_size) frozen_bit_mask frozen_bits info_bits (target, 0, 0))"

section \<open>encodepolar\_single\_stage\<close>

text \<open>
  The inner loop over \<open>bit\<close>; \<open>frame_ptr\<close> and \<open>temp_ptr\<close> are offsets into \<open>frame\<close>
  and \<open>temp\<close>.
\<close>

function stage_bits ::
  "nat \<Rightarrow> nat \<Rightarrow> byte list \<Rightarrow> byte list \<times> nat \<times> nat \<Rightarrow> (byte list \<times> nat \<times> nat) option" where
  "stage_bits bit_i frame_half temp (frame, frame_ptr, temp_ptr) =
     (if bit_i < frame_half then
        do {
          x \<leftarrow> rd temp temp_ptr;
          y \<leftarrow> rd temp (temp_ptr + 1);
          frame1 \<leftarrow> wr frame frame_ptr (x XOR y);
          z \<leftarrow> rd temp (temp_ptr + 1);
          frame2 \<leftarrow> wr frame1 (frame_ptr + frame_half) z;
          stage_bits (bit_i + 1) frame_half temp (frame2, frame_ptr + 1, temp_ptr + 2)
        }
      else Some (frame, frame_ptr, temp_ptr))"
  by pat_completeness auto
termination
  by (relation "measure (\<lambda>(bit_i, frame_half, _). frame_half - bit_i)") auto

declare stage_bits.simps [simp del]

text \<open>The outer loop over \<open>branch\<close>.\<close>

function stage_branches ::
  "nat \<Rightarrow> nat \<Rightarrow> nat \<Rightarrow> byte list \<Rightarrow> byte list \<times> nat \<times> nat \<Rightarrow>
   (byte list \<times> nat \<times> nat) option" where
  "stage_branches branch num_branches frame_half temp (frame, frame_ptr, temp_ptr) =
     (if branch < num_branches then
        do {
          (frame1, frame_ptr1, temp_ptr1) \<leftarrow>
            stage_bits 0 frame_half temp (frame, frame_ptr, temp_ptr);
          stage_branches (branch + 1) num_branches frame_half temp
            (frame1, frame_ptr1 + frame_half, temp_ptr1)
        }
      else Some (frame, frame_ptr, temp_ptr))"
  by pat_completeness auto
termination
  by (relation "measure (\<lambda>(branch, num_branches, _). num_branches - branch)") auto

declare stage_branches.simps [simp del]

definition encodepolar_single_stage ::
  "byte list \<Rightarrow> byte list \<Rightarrow> u32 \<Rightarrow> u32 \<Rightarrow> byte list option" where
  "encodepolar_single_stage frame temp num_branches frame_half =
     map_option fst
       (stage_branches 0 (unat num_branches) (unat frame_half) temp (frame, 0, 0))"

section \<open>volk\_8u\_x3\_encodepolar\_8u\_x2\_generic\<close>

text \<open>The \<open>while(stage)\<close> loop.\<close>

function generic_stages ::
  "u32 \<Rightarrow> u32 \<Rightarrow> byte list \<times> byte list \<times> u32 \<times> u32 \<Rightarrow>
   (byte list \<times> byte list \<times> u32 \<times> u32) option" where
  "generic_stages stage frame_size (frame, temp, num_branches, frame_half) =
     (if stage \<noteq> 0 then
        do {
          frame1 \<leftarrow> encodepolar_single_stage frame temp num_branches frame_half;
          temp1 \<leftarrow> memcpy temp frame1 (unat frame_size);
          generic_stages (stage - 1) frame_size
            (frame1, temp1, push_bit 1 num_branches, drop_bit 1 frame_half)
        }
      else Some (frame, temp, num_branches, frame_half))"
  by pat_completeness auto
termination
  by (relation "measure (\<lambda>(stage, _). unat stage)") (auto simp: unat_minus_one unat_gt_0)

declare generic_stages.simps [simp del]

text \<open>The encoder returns the final contents of \<open>frame\<close> and of \<open>temp\<close>.\<close>

definition volk_8u_x3_encodepolar_8u_x2_generic ::
  "byte list \<Rightarrow> byte list \<Rightarrow> byte list \<Rightarrow> byte list \<Rightarrow> byte list \<Rightarrow> u32 \<Rightarrow>
   (byte list \<times> byte list) option" where
  "volk_8u_x3_encodepolar_8u_x2_generic frame temp frozen_bit_mask frozen_bits info_bits
     frame_size =
     (let stage = log2_of_power_of_2 frame_size;
          frame_half = drop_bit 1 frame_size;
          num_branches = 1
      in do {
        temp1 \<leftarrow> interleave_frozen_and_info_bits temp frozen_bit_mask frozen_bits info_bits
                   frame_size;
        (frame2, temp2, _, _) \<leftarrow>
          generic_stages stage frame_size (frame, temp1, num_branches, frame_half);
        Some (frame2, temp2)
      })"

section \<open>The SSE intrinsics\<close>

text \<open>
  A 128-bit register is the list of its 16 byte lanes, lane 0 (the lowest address of a
  load) first. \<open>_mm_set_epi8\<close> takes the lanes from 15 down to 0, \<open>_mm_setr_epi8\<close>
  from 0 up to 15.
\<close>

type_synonym m128i = "byte list"

definition mm_set_epi8 :: "byte list \<Rightarrow> m128i" where
  "mm_set_epi8 es = rev es"

definition mm_setr_epi8 :: "byte list \<Rightarrow> m128i" where
  "mm_setr_epi8 es = es"

text \<open>Byte shift towards lane 0, zeros coming in at the top.\<close>

definition mm_bsrli_si128 :: "m128i \<Rightarrow> nat \<Rightarrow> m128i" where
  "mm_bsrli_si128 a imm8 =
     (if imm8 > 15 then replicate 16 0 else drop imm8 a @ replicate imm8 0)"

definition mm_and_si128 :: "m128i \<Rightarrow> m128i \<Rightarrow> m128i" where
  "mm_and_si128 a c = map2 (AND) a c"

definition mm_xor_si128 :: "m128i \<Rightarrow> m128i \<Rightarrow> m128i" where
  "mm_xor_si128 a c = map2 (XOR) a c"

text \<open>Lane \<open>i\<close> of the result is lane \<open>c[i] & 0x0F\<close> of \<open>a\<close>, or 0 when bit 7 of \<open>c[i]\<close> is set.\<close>

definition mm_shuffle_epi8 :: "m128i \<Rightarrow> m128i \<Rightarrow> m128i" where
  "mm_shuffle_epi8 a c =
     map (\<lambda>x. if x AND 0x80 \<noteq> 0 then 0 else a ! unat (x AND 0x0F)) c"

definition mm_unpacklo_epi64 :: "m128i \<Rightarrow> m128i \<Rightarrow> m128i" where
  "mm_unpacklo_epi64 a c = take 8 a @ take 8 c"

definition mm_unpackhi_epi64 :: "m128i \<Rightarrow> m128i \<Rightarrow> m128i" where
  "mm_unpackhi_epi64 a c = drop 8 a @ drop 8 c"

text \<open>
  A load or store of 16 bytes at an offset of a buffer. It has no result when one of the
  16 bytes lies outside the buffer. The aligned forms also need the address, which is the
  address of the buffer plus the offset, to be a multiple of 16.
\<close>

definition mm_loadu_si128 :: "byte list \<Rightarrow> nat \<Rightarrow> m128i option" where
  "mm_loadu_si128 buf off =
     (if off + 16 \<le> length buf then Some (take 16 (drop off buf)) else None)"

definition mm_storeu_si128 :: "byte list \<Rightarrow> nat \<Rightarrow> m128i \<Rightarrow> byte list option" where
  "mm_storeu_si128 buf off v =
     (if off + 16 \<le> length buf then Some (take off buf @ take 16 v @ drop (off + 16) buf)
      else None)"

definition mm_load_si128 :: "nat \<Rightarrow> byte list \<Rightarrow> nat \<Rightarrow> m128i option" where
  "mm_load_si128 addr buf off =
     (if 16 dvd addr + off then mm_loadu_si128 buf off else None)"

definition mm_store_si128 :: "nat \<Rightarrow> byte list \<Rightarrow> nat \<Rightarrow> m128i \<Rightarrow> byte list option" where
  "mm_store_si128 addr buf off v =
     (if 16 dvd addr + off then mm_storeu_si128 buf off v else None)"

section \<open>The SSSE3 encoders\<close>

text \<open>
  \<open>volk_8u_x3_encodepolar_8u_x2_u_ssse3\<close> and \<open>volk_8u_x3_encodepolar_8u_x2_a_ssse3\<close>
  are the same text but for the load and store intrinsics, so the loops take the load
  \<open>ld\<close> (always from \<open>temp\<close>) and the store \<open>st\<close> (always to \<open>frame\<close>) as parameters.
\<close>

definition mask_stage1 :: m128i where
  "mask_stage1 = mm_set_epi8 [0x0, 0xFF, 0x0, 0xFF, 0x0, 0xFF, 0x0, 0xFF,
                              0x0, 0xFF, 0x0, 0xFF, 0x0, 0xFF, 0x0, 0xFF]"

definition shuffle_separate :: m128i where
  "shuffle_separate = mm_setr_epi8 [0, 2, 4, 6, 8, 10, 12, 14, 1, 3, 5, 7, 9, 11, 13, 15]"

definition shuffle_stage4 :: m128i where
  "shuffle_stage4 = mm_setr_epi8 [0, 8, 4, 12, 2, 10, 6, 14, 1, 9, 5, 13, 3, 11, 7, 15]"

definition mask_stage4 :: m128i where
  "mask_stage4 = mm_set_epi8 [0x0, 0x0, 0x0, 0x0, 0x0, 0x0, 0x0, 0x0,
                              0xFF, 0xFF, 0xFF, 0xFF, 0xFF, 0xFF, 0xFF, 0xFF]"

definition mask_stage3 :: m128i where
  "mask_stage3 = mm_set_epi8 [0x0, 0x0, 0x0, 0x0, 0xFF, 0xFF, 0xFF, 0xFF,
                              0x0, 0x0, 0x0, 0x0, 0xFF, 0xFF, 0xFF, 0xFF]"

definition mask_stage2 :: m128i where
  "mask_stage2 = mm_set_epi8 [0x0, 0x0, 0xFF, 0xFF, 0x0, 0x0, 0xFF, 0xFF,
                              0x0, 0x0, 0xFF, 0xFF, 0x0, 0x0, 0xFF, 0xFF]"

type_synonym load128 = "byte list \<Rightarrow> nat \<Rightarrow> m128i option"
type_synonym store128 = "byte list \<Rightarrow> nat \<Rightarrow> m128i \<Rightarrow> byte list option"

text \<open>The loop \<open>for(bit = 0; bit < frame_half; bit += 16)\<close> of the coarse tier.\<close>

function coarse_bits ::
  "load128 \<Rightarrow> store128 \<Rightarrow> nat \<Rightarrow> nat \<Rightarrow> byte list \<Rightarrow> byte list \<times> nat \<times> nat \<Rightarrow>
   (byte list \<times> nat \<times> nat) option" where
  "coarse_bits ld st bit_i frame_half temp (frame, frame_ptr, temp_ptr) =
     (if bit_i < frame_half then
        do {
          r_temp0 \<leftarrow> ld temp temp_ptr;
          let temp_ptr = temp_ptr + 16;
          r_temp1 \<leftarrow> ld temp temp_ptr;
          let temp_ptr = temp_ptr + 16;

          let shifted = mm_bsrli_si128 r_temp0 1;
          let shifted = mm_and_si128 shifted mask_stage1;
          let r_temp0 = mm_xor_si128 shifted r_temp0;
          let r_temp0 = mm_shuffle_epi8 r_temp0 shuffle_separate;

          let shifted = mm_bsrli_si128 r_temp1 1;
          let shifted = mm_and_si128 shifted mask_stage1;
          let r_temp1 = mm_xor_si128 shifted r_temp1;
          let r_temp1 = mm_shuffle_epi8 r_temp1 shuffle_separate;

          let r_frame0 = mm_unpacklo_epi64 r_temp0 r_temp1;
          frame \<leftarrow> st frame frame_ptr r_frame0;

          let r_frame1 = mm_unpackhi_epi64 r_temp0 r_temp1;
          frame \<leftarrow> st frame (frame_ptr + frame_half) r_frame1;
          let frame_ptr = frame_ptr + 16;
          coarse_bits ld st (bit_i + 16) frame_half temp (frame, frame_ptr, temp_ptr)
        }
      else Some (frame, frame_ptr, temp_ptr))"
  by pat_completeness auto
termination
  by (relation "measure (\<lambda>(ld, st, bit_i, frame_half, _). frame_half - bit_i)") auto

declare coarse_bits.simps [simp del]

function coarse_branches ::
  "load128 \<Rightarrow> store128 \<Rightarrow> nat \<Rightarrow> nat \<Rightarrow> nat \<Rightarrow> byte list \<Rightarrow> byte list \<times> nat \<times> nat \<Rightarrow>
   (byte list \<times> nat \<times> nat) option" where
  "coarse_branches ld st branch num_branches frame_half temp (frame, frame_ptr, temp_ptr) =
     (if branch < num_branches then
        do {
          (frame, frame_ptr, temp_ptr) \<leftarrow>
            coarse_bits ld st 0 frame_half temp (frame, frame_ptr, temp_ptr);
          let frame_ptr = frame_ptr + frame_half;
          coarse_branches ld st (branch + 1) num_branches frame_half temp
            (frame, frame_ptr, temp_ptr)
        }
      else Some (frame, frame_ptr, temp_ptr))"
  by pat_completeness auto
termination
  by (relation "measure (\<lambda>(ld, st, branch, num_branches, _). num_branches - branch)") auto

declare coarse_branches.simps [simp del]

text \<open>The loop \<open>while(stage > 4)\<close>.\<close>

function coarse_stages ::
  "load128 \<Rightarrow> store128 \<Rightarrow> u32 \<Rightarrow> u32 \<Rightarrow> byte list \<times> byte list \<times> u32 \<times> u32 \<Rightarrow>
   (byte list \<times> byte list \<times> u32 \<times> u32) option" where
  "coarse_stages ld st stage frame_size (frame, temp, num_branches, frame_half) =
     (if stage > 4 then
        do {
          (frame, _, _) \<leftarrow>
            coarse_branches ld st 0 (unat num_branches) (unat frame_half) temp (frame, 0, 0);
          temp \<leftarrow> memcpy temp frame (unat frame_size);
          let num_branches = push_bit 1 num_branches;
          let frame_half = drop_bit 1 frame_half;
          coarse_stages ld st (stage - 1) frame_size (frame, temp, num_branches, frame_half)
        }
      else Some (frame, temp, num_branches, frame_half))"
  by pat_completeness auto
termination
  by (relation "measure (\<lambda>(ld, st, stage, _). unat stage)")
     (auto simp: word_less_nat_alt word_le_nat_alt unat_sub)

declare coarse_stages.simps [simp del]

text \<open>
  The last loop, over the 16-byte chunks. Register \<open>r_temp0\<close> is loaded one iteration
  ahead of its use: every iteration, the last one too, loads the chunk after the one it
  encodes, and like every other access that load is checked.
\<close>

function fine_branches ::
  "load128 \<Rightarrow> store128 \<Rightarrow> nat \<Rightarrow> nat \<Rightarrow> byte list \<Rightarrow>
   byte list \<times> nat \<times> nat \<times> m128i \<Rightarrow>
   (byte list \<times> nat \<times> nat \<times> m128i) option" where
  "fine_branches ld st branch num_branches temp (frame, frame_ptr, temp_ptr, r_temp0) =
     (if branch < num_branches then
        do {
          let r_temp0 = mm_shuffle_epi8 r_temp0 shuffle_stage4;

          let shifted = mm_bsrli_si128 r_temp0 8;
          let shifted = mm_and_si128 shifted mask_stage4;
          let r_frame0 = mm_xor_si128 shifted r_temp0;

          r_temp0 \<leftarrow> ld temp temp_ptr;
          let temp_ptr = temp_ptr + 16;

          let shifted = mm_bsrli_si128 r_frame0 4;
          let shifted = mm_and_si128 shifted mask_stage3;
          let r_frame0 = mm_xor_si128 shifted r_frame0;

          let shifted = mm_bsrli_si128 r_frame0 2;
          let shifted = mm_and_si128 shifted mask_stage2;
          let r_frame0 = mm_xor_si128 shifted r_frame0;

          let shifted = mm_bsrli_si128 r_frame0 1;
          let shifted = mm_and_si128 shifted mask_stage1;
          let r_frame0 = mm_xor_si128 shifted r_frame0;

          frame \<leftarrow> st frame frame_ptr r_frame0;
          let frame_ptr = frame_ptr + 16;
          fine_branches ld st (branch + 1) num_branches temp
            (frame, frame_ptr, temp_ptr, r_temp0)
        }
      else Some (frame, frame_ptr, temp_ptr, r_temp0))"
  by pat_completeness auto
termination
  by (relation "measure (\<lambda>(ld, st, branch, num_branches, _). num_branches - branch)") auto

declare fine_branches.simps [simp del]

text \<open>
  The body shared by both encoders. It returns the final \<open>frame\<close> and \<open>temp\<close>, and the
  final \<open>temp_ptr\<close> and \<open>r_temp0\<close> of the last loop.
\<close>

definition encodepolar_ssse3 ::
  "load128 \<Rightarrow> store128 \<Rightarrow> byte list \<Rightarrow> byte list \<Rightarrow> byte list \<Rightarrow> byte list \<Rightarrow> byte list \<Rightarrow>
   u32 \<Rightarrow> (byte list \<times> byte list \<times> nat \<times> m128i) option" where
  "encodepolar_ssse3 ld st frame temp frozen_bit_mask frozen_bits info_bits frame_size =
     (let po2 = log2_of_power_of_2 frame_size;
          stage = po2;
          frame_half = drop_bit 1 frame_size;
          num_branches = 1
      in do {
        temp \<leftarrow> interleave_frozen_and_info_bits temp frozen_bit_mask frozen_bits info_bits
                  frame_size;
        (frame, temp, num_branches, frame_half) \<leftarrow>
          coarse_stages ld st stage frame_size (frame, temp, num_branches, frame_half);
        r_temp0 \<leftarrow> ld temp 0;
        let temp_ptr = 16;
        (frame, _, temp_ptr, r_temp0) \<leftarrow>
          fine_branches ld st 0 (unat num_branches) temp (frame, 0, temp_ptr, r_temp0);
        Some (frame, temp, temp_ptr, r_temp0)
      })"

definition volk_8u_x3_encodepolar_8u_x2_u_ssse3 ::
  "byte list \<Rightarrow> byte list \<Rightarrow> byte list \<Rightarrow> byte list \<Rightarrow> byte list \<Rightarrow> u32 \<Rightarrow>
   (byte list \<times> byte list) option" where
  "volk_8u_x3_encodepolar_8u_x2_u_ssse3 frame temp frozen_bit_mask frozen_bits info_bits
     frame_size =
     map_option (\<lambda>(frame, temp, _, _). (frame, temp))
       (encodepolar_ssse3 mm_loadu_si128 mm_storeu_si128
          frame temp frozen_bit_mask frozen_bits info_bits frame_size)"

text \<open>The aligned encoder, with the addresses of \<open>frame\<close> and \<open>temp\<close>.\<close>

definition volk_8u_x3_encodepolar_8u_x2_a_ssse3 ::
  "nat \<Rightarrow> nat \<Rightarrow> byte list \<Rightarrow> byte list \<Rightarrow> byte list \<Rightarrow> byte list \<Rightarrow> byte list \<Rightarrow> u32 \<Rightarrow>
   (byte list \<times> byte list) option" where
  "volk_8u_x3_encodepolar_8u_x2_a_ssse3 frame_addr temp_addr
     frame temp frozen_bit_mask frozen_bits info_bits frame_size =
     map_option (\<lambda>(frame, temp, _, _). (frame, temp))
       (encodepolar_ssse3 (mm_load_si128 temp_addr) (mm_store_si128 frame_addr)
          frame temp frozen_bit_mask frozen_bits info_bits frame_size)"

section \<open>Definitions used to state the properties\<close>

subsection \<open>The cursors of the interleaver\<close>

text \<open>
  The number of frozen values, and of info values, that the scan has consumed when it
  reaches position \<open>i\<close>: the values of the two cursors at that position. The cell
  written at position \<open>i\<close> is the value under the cursor that the mask selects.
\<close>

definition frozen_before :: "byte list \<Rightarrow> nat \<Rightarrow> nat" where
  "frozen_before msk i = length (filter (\<lambda>m. m \<noteq> 0) (take i msk))"

definition info_before :: "byte list \<Rightarrow> nat \<Rightarrow> nat" where
  "info_before msk i = length (filter (\<lambda>m. m = 0) (take i msk))"

definition interleaved_cell :: "byte list \<Rightarrow> byte list \<Rightarrow> byte list \<Rightarrow> nat \<Rightarrow> byte" where
  "interleaved_cell msk frozen info i =
     (if msk ! i \<noteq> 0 then frozen ! frozen_before msk i else info ! info_before msk i)"

definition interleaved :: "byte list \<Rightarrow> byte list \<Rightarrow> byte list \<Rightarrow> nat \<Rightarrow> byte list" where
  "interleaved msk frozen info n = map (interleaved_cell msk frozen info) [0..<n]"

subsection \<open>The scalar transform as the specification words it\<close>

text \<open>
  One write pair for local index \<open>j\<close> of the branch at \<open>branchOffset\<close>; a branch is the
  write pairs for \<open>j\<close> in \<open>[0, half)\<close>; a pass is the branches at offsets
  \<open>0, 2 * half, 4 * half, \<dots>\<close>; after a pass \<open>frame\<close> is copied to \<open>temp\<close>,
  \<open>branchCount\<close> is doubled and \<open>half\<close> is halved.
\<close>

definition spec_write :: "nat \<Rightarrow> byte list \<Rightarrow> nat \<Rightarrow> nat \<Rightarrow> byte list \<Rightarrow> byte list" where
  "spec_write half temp branchOffset j frame =
     (frame[branchOffset + j := temp ! (branchOffset + 2 * j) XOR temp ! (branchOffset + 2 * j + 1)])
       [branchOffset + j + half := temp ! (branchOffset + 2 * j + 1)]"

definition spec_branch :: "nat \<Rightarrow> byte list \<Rightarrow> nat \<Rightarrow> byte list \<Rightarrow> byte list" where
  "spec_branch half temp branchOffset frame =
     fold (spec_write half temp branchOffset) [0..<half] frame"

definition spec_pass :: "nat \<Rightarrow> nat \<Rightarrow> byte list \<Rightarrow> byte list \<Rightarrow> byte list" where
  "spec_pass branchCount half temp frame =
     fold (\<lambda>k. spec_branch half temp (k * (2 * half))) [0..<branchCount] frame"

fun spec_passes ::
  "nat \<Rightarrow> byte list \<times> byte list \<times> nat \<times> nat \<Rightarrow> byte list \<times> byte list \<times> nat \<times> nat" where
  "spec_passes 0 st = st"
| "spec_passes (Suc s) (frame, temp, branchCount, half) =
     (let frame' = spec_pass branchCount half temp frame;
          temp' = frame'
      in spec_passes s (frame', temp', 2 * branchCount, half div 2))"

subsection \<open>The transform as a function on lists\<close>

text \<open>
  A branch of width \<open>2 * h\<close> maps to the XORs of its pairs followed by the second
  elements of its pairs; a pass maps every branch; \<open>upasses n nb\<close> makes the \<open>n\<close> passes
  with halves \<open>2 ^ (n - 1), \<dots>, 2, 1\<close>, starting from \<open>nb\<close> branches.
\<close>

definition butterfly :: "nat \<Rightarrow> byte list \<Rightarrow> byte list" where
  "butterfly h ys =
     map (\<lambda>j. ys ! (2 * j) XOR ys ! (2 * j + 1)) [0..<h] @ map (\<lambda>j. ys ! (2 * j + 1)) [0..<h]"

fun pass_rec :: "nat \<Rightarrow> nat \<Rightarrow> byte list \<Rightarrow> byte list" where
  "pass_rec 0 h xs = []"
| "pass_rec (Suc n) h xs = butterfly h (take (2 * h) xs) @ pass_rec n h (drop (2 * h) xs)"

fun upasses :: "nat \<Rightarrow> nat \<Rightarrow> byte list \<Rightarrow> byte list" where
  "upasses 0 nb xs = xs"
| "upasses (Suc n) nb xs = upasses n (2 * nb) (pass_rec nb (2 ^ n) xs)"

subsection \<open>Buffers of bits\<close>

text \<open>Every cell of the buffer is 0 or 1.\<close>

definition binary :: "byte list \<Rightarrow> bool" where
  "binary xs = list_all (\<lambda>x. x = 0 \<or> x = 1) xs"

subsection \<open>The register computations of the SSSE3 encoders\<close>

text \<open>
  \<open>coarse_sep\<close> is what the coarse tier does to each of the two registers it loads, and
  \<open>fine_chunk\<close> is what the last loop does to a chunk between its use of \<open>r_temp0\<close>
  and its store. \<open>store16\<close> is the buffer after a 16-byte store that is in range.
  \<open>passes_above m d nb\<close> makes the \<open>d\<close> passes with halves
  \<open>2 ^ (m + d - 1), \<dots>, 2 ^ m\<close>, and \<open>fine_pure\<close> applies \<open>fine_chunk\<close> to consecutive
  chunks.
\<close>

definition coarse_sep :: "m128i \<Rightarrow> m128i" where
  "coarse_sep v =
     mm_shuffle_epi8 (mm_xor_si128 (mm_and_si128 (mm_bsrli_si128 v 1) mask_stage1) v)
       shuffle_separate"

definition fine_chunk :: "m128i \<Rightarrow> m128i" where
  "fine_chunk v =
     (let r0 = mm_shuffle_epi8 v shuffle_stage4;
          r1 = mm_xor_si128 (mm_and_si128 (mm_bsrli_si128 r0 8) mask_stage4) r0;
          r2 = mm_xor_si128 (mm_and_si128 (mm_bsrli_si128 r1 4) mask_stage3) r1;
          r3 = mm_xor_si128 (mm_and_si128 (mm_bsrli_si128 r2 2) mask_stage2) r2
      in mm_xor_si128 (mm_and_si128 (mm_bsrli_si128 r3 1) mask_stage1) r3)"

definition store16 :: "byte list \<Rightarrow> nat \<Rightarrow> m128i \<Rightarrow> byte list" where
  "store16 buf off v = take off buf @ take 16 v @ drop (off + 16) buf"

fun passes_above :: "nat \<Rightarrow> nat \<Rightarrow> nat \<Rightarrow> byte list \<Rightarrow> byte list" where
  "passes_above m 0 nb xs = xs"
| "passes_above m (Suc d) nb xs = passes_above m d (2 * nb) (pass_rec nb (2 ^ (m + d)) xs)"

fun fine_pure :: "nat \<Rightarrow> byte list \<Rightarrow> byte list" where
  "fine_pure 0 xs = []"
| "fine_pure (Suc n) xs = fine_chunk (take 16 xs) @ fine_pure n (drop 16 xs)"

section \<open>Properties of log2\_of\_power\_of\_2\<close>

lemma all_less_32: "(\<forall>k<32::nat. P k) \<longleftrightarrow> list_all P [0..<32]"
  by (auto simp: list_all_iff)

lemma log2_of_power_of_2_all:
  "\<forall>k<32. log2_of_power_of_2 (2 ^ k) = of_nat k"
  unfolding all_less_32
  by (simp add: upt_rec log2_of_power_of_2_def log2_b_def c_bool_def)

lemma log2_pow2: "k < 32 \<Longrightarrow> log2_of_power_of_2 (2 ^ k) = of_nat k"
  using log2_of_power_of_2_all by blast

text \<open>
  Claim C7. For every \<open>val = 2 ^ k\<close> with \<open>k\<close> in \<open>0..31\<close>, \<open>log2_of_power_of_2 val\<close>
  returns the exponent \<open>k\<close>.
\<close>

theorem log2_of_power_of_2_exact:
  "k < 32 \<Longrightarrow> log2_of_power_of_2 (2 ^ k) = of_nat k"
  using log2_of_power_of_2_all by blast

theorem log2_of_power_of_2_exact_witness:
  "(5::nat) < 32 \<and> log2_of_power_of_2 (2 ^ 5) = 5"
  using log2_of_power_of_2_exact [of 5] by simp

section \<open>The interleaver\<close>

lemma frozen_before_Suc:
  "i < length msk \<Longrightarrow>
   frozen_before msk (Suc i) = frozen_before msk i + (if msk ! i \<noteq> 0 then 1 else 0)"
  by (simp add: frozen_before_def take_Suc_conv_app_nth)

lemma info_before_Suc:
  "i < length msk \<Longrightarrow>
   info_before msk (Suc i) = info_before msk i + (if msk ! i \<noteq> 0 then 0 else 1)"
  by (simp add: info_before_def take_Suc_conv_app_nth)

lemma frozen_before_mono: "i \<le> j \<Longrightarrow> frozen_before msk i \<le> frozen_before msk j"
proof (induction j)
  case 0
  then show ?case by simp
next
  case (Suc j)
  show ?case
  proof (cases "i = Suc j")
    case True
    then show ?thesis by simp
  next
    case False
    with Suc have le: "frozen_before msk i \<le> frozen_before msk j" by simp
    show ?thesis
    proof (cases "j < length msk")
      case True
      with le show ?thesis by (simp add: frozen_before_Suc)
    next
      case False
      then show ?thesis using le by (simp add: frozen_before_def)
    qed
  qed
qed

lemma info_before_mono: "i \<le> j \<Longrightarrow> info_before msk i \<le> info_before msk j"
proof (induction j)
  case 0
  then show ?case by simp
next
  case (Suc j)
  show ?case
  proof (cases "i = Suc j")
    case True
    then show ?thesis by simp
  next
    case False
    with Suc have le: "info_before msk i \<le> info_before msk j" by simp
    show ?thesis
    proof (cases "j < length msk")
      case True
      with le show ?thesis by (simp add: info_before_Suc)
    next
      case False
      then show ?thesis using le by (simp add: info_before_def)
    qed
  qed
qed

lemma interleave_loop_run:
  assumes "bit_i \<le> n" "n \<le> length msk" "n \<le> length target"
    and "frozen_before msk n \<le> length frozen" "info_before msk n \<le> length info"
  shows "interleave_loop bit_i n msk frozen info
           (target, frozen_before msk bit_i, info_before msk bit_i) =
         Some (take bit_i target @ map (interleaved_cell msk frozen info) [bit_i..<n]
                 @ drop n target,
               frozen_before msk n, info_before msk n)"
  using assms
proof (induction "n - bit_i" arbitrary: bit_i target)
  case 0
  then show ?case by (subst interleave_loop.simps) simp
next
  case (Suc d)
  from Suc.hyps(2) Suc.prems have lt: "bit_i < n" and ltm: "bit_i < length msk"
    and ltt: "bit_i < length target" by auto
  have d: "d = n - Suc bit_i" using Suc.hyps(2) by simp
  have fr: "msk ! bit_i \<noteq> 0 \<Longrightarrow> frozen_before msk bit_i < length frozen"
    using frozen_before_mono [of "Suc bit_i" n msk] lt ltm Suc.prems(4)
    by (simp add: frozen_before_Suc)
  have inf: "msk ! bit_i = 0 \<Longrightarrow> info_before msk bit_i < length info"
    using info_before_mono [of "Suc bit_i" n msk] lt ltm Suc.prems(5)
    by (simp add: info_before_Suc)
  let ?v = "interleaved_cell msk frozen info bit_i"
  have IH: "interleave_loop (Suc bit_i) n msk frozen info
           (target[bit_i := ?v], frozen_before msk (Suc bit_i), info_before msk (Suc bit_i)) =
         Some (take (Suc bit_i) (target[bit_i := ?v])
                 @ map (interleaved_cell msk frozen info) [Suc bit_i..<n]
                 @ drop n (target[bit_i := ?v]),
               frozen_before msk n, info_before msk n)"
    using Suc.hyps(1) [OF d] lt Suc.prems by simp
  have tk: "take (Suc bit_i) (target[bit_i := ?v]) = take bit_i target @ [?v]"
    using ltt by (simp add: take_Suc_conv_app_nth)
  have dr: "drop n (target[bit_i := ?v]) = drop n target"
    using lt by simp
  have up: "[bit_i..<n] = bit_i # [Suc bit_i..<n]"
    using lt by (simp add: upt_conv_Cons)
  have step: "interleave_loop bit_i n msk frozen info
           (target, frozen_before msk bit_i, info_before msk bit_i) =
         interleave_loop (Suc bit_i) n msk frozen info
           (target[bit_i := ?v], frozen_before msk (Suc bit_i), info_before msk (Suc bit_i))"
    using lt ltm ltt fr inf
    by (subst interleave_loop.simps)
       (simp add: rd_def wr_def interleaved_cell_def frozen_before_Suc info_before_Suc)
  show ?case
    unfolding step IH tk dr up by simp
qed

lemma length_interleaved [simp]: "length (interleaved msk frozen info n) = n"
  by (simp add: interleaved_def)

lemma interleave_run:
  assumes "length msk = unat frame_size" "length target = unat frame_size"
    and "length frozen = frozen_before msk (unat frame_size)"
    and "length info = info_before msk (unat frame_size)"
  shows "interleave_frozen_and_info_bits target msk frozen info frame_size =
         Some (interleaved msk frozen info (unat frame_size))"
  using interleave_loop_run [of 0 "unat frame_size" msk target frozen info] assms
  by (simp add: interleave_frozen_and_info_bits_def interleaved_def frozen_before_def
      info_before_def)

text \<open>
  Claim C3. When the mask has as many nonzero cells as there are frozen values and as
  many zero cells as there are info values, the interleaver scans the positions
  \<open>0..N-1\<close> in order: the run over the first \<open>i\<close> positions has written, at every
  position \<open>p < i\<close>, the frozen value under the frozen cursor when \<open>mask[p]\<close> is nonzero
  and the info value under the info cursor otherwise, has left the rest of \<open>target\<close>
  as it was, and leaves the cursors at the numbers of nonzero and of zero mask cells
  before \<open>i\<close>. The cursors start at 0 and never decrease, and after \<open>N\<close> positions
  every cell of \<open>target\<close> is written.
\<close>

theorem interleave_frozen_and_info_bits_scan:
  assumes "length msk = unat frame_size" "length target = unat frame_size"
    and "length frozen = frozen_before msk (unat frame_size)"
    and "length info = info_before msk (unat frame_size)"
  shows "interleave_frozen_and_info_bits target msk frozen info frame_size =
           Some (map (interleaved_cell msk frozen info) [0..<unat frame_size]) \<and>
         (\<forall>i\<le>unat frame_size.
            interleave_loop 0 i msk frozen info (target, 0, 0) =
              Some (map (interleaved_cell msk frozen info) [0..<i] @ drop i target,
                    frozen_before msk i, info_before msk i)) \<and>
         (\<forall>i j. i \<le> j \<longrightarrow>
            frozen_before msk i \<le> frozen_before msk j \<and> info_before msk i \<le> info_before msk j)"
proof (intro conjI allI impI)
  show "interleave_frozen_and_info_bits target msk frozen info frame_size =
           Some (map (interleaved_cell msk frozen info) [0..<unat frame_size])"
    using interleave_run [OF assms] by (simp add: interleaved_def)
next
  fix i assume i: "i \<le> unat frame_size"
  have "frozen_before msk i \<le> length frozen" "info_before msk i \<le> length info"
    using i assms frozen_before_mono [of i "unat frame_size" msk]
      info_before_mono [of i "unat frame_size" msk] by simp_all
  then show "interleave_loop 0 i msk frozen info (target, 0, 0) =
              Some (map (interleaved_cell msk frozen info) [0..<i] @ drop i target,
                    frozen_before msk i, info_before msk i)"
    using interleave_loop_run [of 0 i msk target frozen info] i assms
    by (simp add: frozen_before_def info_before_def)
next
  fix i j :: nat assume "i \<le> j"
  then show "frozen_before msk i \<le> frozen_before msk j"
    and "info_before msk i \<le> info_before msk j"
    by (rule frozen_before_mono, rule info_before_mono)
qed

theorem interleave_frozen_and_info_bits_scan_witness:
  "interleave_frozen_and_info_bits [9, 9, 9, 9] [1, 0, 0, 1] [0, 0] [1, 0] 4 = Some [0, 1, 0, 0] \<and>
   interleave_loop 0 3 [1, 0, 0, 1] [0, 0] [1, 0] ([9, 9, 9, 9], 0, 0) = Some ([0, 1, 0, 9], 1, 2)"
  using interleave_frozen_and_info_bits_scan
          [of "[1, 0, 0, 1]" 4 "[9, 9, 9, 9]" "[0, 0]" "[1, 0]"]
  by (simp add: frozen_before_def info_before_def interleaved_cell_def upt_rec)

section \<open>The scalar stage\<close>

lemma length_spec_write [simp]: "length (spec_write half temp bo j frame) = length frame"
  by (simp add: spec_write_def)

lemma length_fold_spec_write [simp]:
  "length (fold (spec_write half temp bo) js frame) = length frame"
  by (induction js arbitrary: frame) simp_all

lemma length_spec_branch [simp]: "length (spec_branch half temp bo frame) = length frame"
  by (simp add: spec_branch_def)

lemma length_spec_pass [simp]: "length (spec_pass n half temp frame) = length frame"
  unfolding spec_pass_def
  by (induction n arbitrary: frame) simp_all

lemma stage_bits_spec:
  assumes "bit_i \<le> fh" "bo + 2 * fh \<le> length temp" "bo + 2 * fh \<le> length frame"
  shows "stage_bits bit_i fh temp (frame, bo + bit_i, bo + 2 * bit_i) =
         Some (fold (spec_write fh temp bo) [bit_i..<fh] frame, bo + fh, bo + 2 * fh)"
  using assms
proof (induction "fh - bit_i" arbitrary: bit_i frame)
  case 0
  then show ?case by (subst stage_bits.simps) simp
next
  case (Suc d)
  then have lt: "bit_i < fh" and d: "d = fh - Suc bit_i" by auto
  have IH: "stage_bits (Suc bit_i) fh temp
              (spec_write fh temp bo bit_i frame, bo + Suc bit_i, bo + 2 * Suc bit_i) =
            Some (fold (spec_write fh temp bo) [Suc bit_i..<fh]
                    (spec_write fh temp bo bit_i frame), bo + fh, bo + 2 * fh)"
    using Suc.hyps(1) [OF d, of "spec_write fh temp bo bit_i frame"] lt Suc.prems by simp
  have step: "stage_bits bit_i fh temp (frame, bo + bit_i, bo + 2 * bit_i) =
              stage_bits (Suc bit_i) fh temp
                (spec_write fh temp bo bit_i frame, bo + Suc bit_i, bo + 2 * Suc bit_i)"
    using lt Suc.prems
    by (subst stage_bits.simps) (simp add: rd_def wr_def spec_write_def add.commute add.left_commute)
  show ?case
    unfolding step IH using lt by (simp add: upt_conv_Cons)
qed

lemma stage_branches_spec:
  assumes "branch \<le> nb" "nb * (2 * fh) \<le> length temp" "nb * (2 * fh) \<le> length frame"
  shows "stage_branches branch nb fh temp (frame, branch * (2 * fh), branch * (2 * fh)) =
         Some (fold (\<lambda>k. spec_branch fh temp (k * (2 * fh))) [branch..<nb] frame,
               nb * (2 * fh), nb * (2 * fh))"
  using assms
proof (induction "nb - branch" arbitrary: branch frame)
  case 0
  then show ?case by (subst stage_branches.simps) simp
next
  case (Suc d)
  then have lt: "branch < nb" and d: "d = nb - Suc branch" by auto
  let ?bo = "branch * (2 * fh)"
  have "Suc branch * (2 * fh) \<le> nb * (2 * fh)"
    using lt by (intro mult_le_mono1) simp
  then have bnd: "?bo + 2 * fh \<le> length temp" "?bo + 2 * fh \<le> length frame"
    using Suc.prems by simp_all
  have bits: "stage_bits 0 fh temp (frame, ?bo, ?bo) =
              Some (spec_branch fh temp ?bo frame, ?bo + fh, ?bo + 2 * fh)"
    using stage_bits_spec [of 0 fh ?bo temp frame] bnd by (simp add: spec_branch_def)
  have IH: "stage_branches (Suc branch) nb fh temp
              (spec_branch fh temp ?bo frame, Suc branch * (2 * fh), Suc branch * (2 * fh)) =
            Some (fold (\<lambda>k. spec_branch fh temp (k * (2 * fh))) [Suc branch..<nb]
                    (spec_branch fh temp ?bo frame), nb * (2 * fh), nb * (2 * fh))"
    using Suc.hyps(1) [OF d, of "spec_branch fh temp ?bo frame"] lt Suc.prems by simp
  have step: "stage_branches branch nb fh temp (frame, ?bo, ?bo) =
              stage_branches (Suc branch) nb fh temp
                (spec_branch fh temp ?bo frame, Suc branch * (2 * fh), Suc branch * (2 * fh))"
    using lt by (subst stage_branches.simps) (simp add: bits add.commute add.left_commute)
  show ?case
    unfolding step IH using lt by (simp add: upt_conv_Cons)
qed

lemma encodepolar_single_stage_spec:
  assumes "unat nb * (2 * unat fh) \<le> length temp" "unat nb * (2 * unat fh) \<le> length frame"
  shows "encodepolar_single_stage frame temp nb fh =
         Some (spec_pass (unat nb) (unat fh) temp frame)"
  using stage_branches_spec [of 0 "unat nb" "unat fh" temp frame] assms
  by (simp add: encodepolar_single_stage_def spec_pass_def)

section \<open>The pass as a function on lists\<close>

lemma length_butterfly [simp]: "length (butterfly h ys) = 2 * h"
  by (simp add: butterfly_def)

lemma length_pass_rec [simp]: "length (pass_rec n h xs) = n * (2 * h)"
  by (induction n arbitrary: xs) simp_all

lemma pass_rec_add:
  "pass_rec (m + n) h xs = pass_rec m h xs @ pass_rec n h (drop (m * (2 * h)) xs)"
  by (induction m arbitrary: xs) (simp_all add: add.commute)

lemma pass_rec_snoc:
  "pass_rec (Suc n) h xs = pass_rec n h xs @ butterfly h (take (2 * h) (drop (n * (2 * h)) xs))"
  using pass_rec_add [of n 1 h xs] by simp

lemma fold_spec_write_nth:
  assumes "n \<le> half" "bo + 2 * half \<le> length frame" "i < length frame"
  shows "fold (spec_write half temp bo) [0..<n] frame ! i =
         (if bo \<le> i \<and> i < bo + n then temp ! (bo + 2 * (i - bo)) XOR temp ! (bo + 2 * (i - bo) + 1)
          else if bo + half \<le> i \<and> i < bo + half + n then temp ! (bo + 2 * (i - bo - half) + 1)
          else frame ! i)"
  using assms
proof (induction n)
  case 0
  then show ?case by auto
next
  case (Suc n)
  define G where "G = fold (spec_write half temp bo) [0..<n] frame"
  have lenG: "length G = length frame" by (simp add: G_def)
  from Suc have IH: "G ! i =
         (if bo \<le> i \<and> i < bo + n then temp ! (bo + 2 * (i - bo)) XOR temp ! (bo + 2 * (i - bo) + 1)
          else if bo + half \<le> i \<and> i < bo + half + n then temp ! (bo + 2 * (i - bo - half) + 1)
          else frame ! i)" by (simp add: G_def)
  have unfold: "fold (spec_write half temp bo) [0..<Suc n] frame = spec_write half temp bo n G"
    by (simp add: G_def)
  have eq1: "i = bo + n \<Longrightarrow> i - bo = n" by simp
  have eq2: "i = bo + n + half \<Longrightarrow> i - (bo + half) = n" by simp
  show ?case
    unfolding unfold using Suc.prems lenG
    by (auto simp: spec_write_def nth_list_update IH eq1 eq2)
qed

lemma spec_branch_butterfly:
  assumes "bo + 2 * half \<le> length frame" "bo + 2 * half \<le> length temp"
  shows "spec_branch half temp bo frame =
         take bo frame @ butterfly half (take (2 * half) (drop bo temp)) @ drop (bo + 2 * half) frame"
proof (rule nth_equalityI)
  show "length (spec_branch half temp bo frame) =
        length (take bo frame @ butterfly half (take (2 * half) (drop bo temp)) @
                drop (bo + 2 * half) frame)"
    using assms by simp
next
  fix i assume "i < length (spec_branch half temp bo frame)"
  then have i: "i < length frame" by simp
  consider "i < bo" | "bo \<le> i" "i < bo + half" | "bo + half \<le> i" "i < bo + 2 * half"
    | "bo + 2 * half \<le> i" by linarith
  then show "spec_branch half temp bo frame ! i =
        (take bo frame @ butterfly half (take (2 * half) (drop bo temp)) @
                drop (bo + 2 * half) frame) ! i"
  proof cases
    case 1
    then show ?thesis
      using assms i by (simp add: spec_branch_def fold_spec_write_nth nth_append)
  next
    case 2
    then have "i - bo < half" by simp
    with 2 show ?thesis
      using assms i
      by (simp add: spec_branch_def fold_spec_write_nth nth_append butterfly_def)
  next
    case 3
    then have "i - (bo + half) < half" "\<not> i - bo < half" "i - bo - half = i - (bo + half)"
      by simp_all
    with 3 show ?thesis
      using assms i
      by (simp add: spec_branch_def fold_spec_write_nth nth_append butterfly_def)
  next
    case 4
    then have "\<not> i - bo < 2 * half" "bo + 2 * half + (i - (bo + 2 * half)) = i"
      "i - bo - 2 * half = i - (bo + 2 * half)"
      by simp_all
    with 4 show ?thesis
      using assms i
      by (simp add: spec_branch_def fold_spec_write_nth nth_append)
  qed
qed

lemma spec_pass_pass_rec:
  assumes "n * (2 * half) \<le> length frame" "n * (2 * half) \<le> length temp"
  shows "spec_pass n half temp frame = pass_rec n half temp @ drop (n * (2 * half)) frame"
  using assms
proof (induction n)
  case 0
  then show ?case by (simp add: spec_pass_def)
next
  case (Suc n)
  then have IH: "spec_pass n half temp frame = pass_rec n half temp @ drop (n * (2 * half)) frame"
    by simp
  let ?bo = "n * (2 * half)"
  let ?fr = "pass_rec n half temp @ drop ?bo frame"
  have len: "length ?fr = length frame" using Suc.prems by simp
  have "spec_pass (Suc n) half temp frame = spec_branch half temp ?bo (spec_pass n half temp frame)"
    by (simp add: spec_pass_def)
  also have "\<dots> = spec_branch half temp ?bo ?fr"
    by (simp only: IH)
  also have "\<dots> = take ?bo ?fr @ butterfly half (take (2 * half) (drop ?bo temp))
                     @ drop (?bo + 2 * half) ?fr"
    using Suc.prems len by (intro spec_branch_butterfly) simp_all
  also have "\<dots> = pass_rec (Suc n) half temp @ drop (Suc n * (2 * half)) frame"
    unfolding pass_rec_snoc by (simp add: add.commute)
  finally show ?case .
qed

lemma encodepolar_single_stage_pass_rec:
  assumes "length temp = unat nb * (2 * unat fh)" "length frame = unat nb * (2 * unat fh)"
  shows "encodepolar_single_stage frame temp nb fh = Some (pass_rec (unat nb) (unat fh) temp)"
  using assms
  by (simp add: encodepolar_single_stage_spec spec_pass_pass_rec)

section \<open>The scalar encoder\<close>

lemma unat_pow2: "j < 32 \<Longrightarrow> unat (2 ^ j :: u32) = 2 ^ j"
proof -
  assume "j < 32"
  then have "(2::nat) ^ j < 2 ^ 32" by (rule power_strict_increasing) simp
  then show ?thesis using unat_of_nat [of "2 ^ j", where 'a = 32] by simp
qed

lemma drop_bit_pow2: "j < 31 \<Longrightarrow> drop_bit (Suc 0) (2 * 2 ^ j :: u32) = 2 ^ j"
proof -
  assume "j < 31"
  then have "drop_bit 1 (2 ^ Suc j :: u32) = 2 ^ j"
    by (subst drop_bit_exp_eq) simp
  then show ?thesis by simp
qed

lemma of_nat_Suc_neq0: "n < 32 \<Longrightarrow> (1 + of_nat n :: u32) \<noteq> 0"
  using of_nat_neq_0 [of "Suc n", where 'a = 32] by simp

lemma pow2_split: "n < k \<Longrightarrow> (2::nat) ^ (k - Suc n) * (2 * 2 ^ n) = 2 ^ k"
proof -
  assume "n < k"
  then have "k = (k - Suc n) + Suc n" by simp
  then have "(2::nat) ^ k = 2 ^ (k - Suc n) * 2 ^ Suc n"
    by (metis power_add)
  then show ?thesis by simp
qed

lemma generic_stages_spec:
  assumes "n \<le> k" "k < 32" "length frame = 2 ^ k" "length temp = 2 ^ k"
  shows "generic_stages (of_nat n) (2 ^ k) (frame, temp, 2 ^ (k - n), drop_bit 1 (2 ^ n)) =
         Some (case spec_passes n (frame, temp, 2 ^ (k - n), 2 ^ n div 2) of
                 (F, T, bc, hf) \<Rightarrow> (F, T, of_nat bc, of_nat hf))"
  using assms
proof (induction n arbitrary: frame temp)
  case 0
  then show ?case by (subst generic_stages.simps) simp
next
  case (Suc n)
  then have nk: "n < k" and n31: "n < 31" and n32: "n < 32" by simp_all
  have kn: "k - n = Suc (k - Suc n)" using nk by simp
  have kn32: "k - Suc n < 32" using Suc.prems by simp
  define F where "F = spec_pass (2 ^ (k - Suc n)) (2 ^ n) temp frame"
  have lenF: "length F = 2 ^ k" using Suc.prems by (simp add: F_def)
  have stage: "encodepolar_single_stage frame temp (2 ^ (k - Suc n)) (2 ^ n) = Some F"
    using Suc.prems nk
    by (simp add: encodepolar_single_stage_spec unat_pow2 [OF n32] unat_pow2 [OF kn32]
        pow2_split F_def)
  have cp: "memcpy temp F (unat (2 ^ k :: u32)) = Some F"
    using Suc.prems lenF by (simp add: memcpy_def unat_pow2)
  have IH: "generic_stages (of_nat n) (2 ^ k) (F, F, 2 ^ (k - n), drop_bit 1 (2 ^ n)) =
         Some (case spec_passes n (F, F, 2 ^ (k - n), 2 ^ n div 2) of
                 (F, T, bc, hf) \<Rightarrow> (F, T, of_nat bc, of_nat hf))"
    using Suc.IH [of F F] Suc.prems lenF by simp
  have step: "generic_stages (of_nat (Suc n)) (2 ^ k)
                (frame, temp, 2 ^ (k - Suc n), drop_bit 1 (2 ^ Suc n)) =
              generic_stages (of_nat n) (2 ^ k) (F, F, 2 ^ (k - n), drop_bit 1 (2 ^ n))"
    using of_nat_Suc_neq0 [OF n32]
    by (subst generic_stages.simps)
       (simp add: drop_bit_pow2 [OF n31] stage cp kn push_bit_eq_mult mult.commute)
  show ?case
    unfolding step IH by (simp add: F_def kn Let_def)
qed

lemma spec_passes_upasses:
  assumes "length frame = nb * 2 ^ Suc n" "length temp = nb * 2 ^ Suc n"
  shows "spec_passes (Suc n) (frame, temp, nb, 2 ^ n) =
         (upasses (Suc n) nb temp, upasses (Suc n) nb temp, nb * 2 ^ Suc n, 0)"
  using assms
proof (induction n arbitrary: frame temp nb)
  case 0
  then show ?case by (simp add: spec_pass_pass_rec Let_def)
next
  case (Suc n)
  let ?F = "pass_rec nb (2 ^ Suc n) temp"
  have sp: "spec_pass nb (2 ^ Suc n) temp frame = ?F"
    using Suc.prems by (simp add: spec_pass_pass_rec)
  have len: "length ?F = (2 * nb) * 2 ^ Suc n" by simp
  have "spec_passes (Suc (Suc n)) (frame, temp, nb, 2 ^ Suc n) =
        spec_passes (Suc n) (?F, ?F, 2 * nb, 2 ^ Suc n div 2)"
    by (subst spec_passes.simps) (simp only: Let_def sp)
  also have "\<dots> = spec_passes (Suc n) (?F, ?F, 2 * nb, 2 ^ n)"
    by simp
  also have "\<dots> = (upasses (Suc n) (2 * nb) ?F, upasses (Suc n) (2 * nb) ?F,
                     (2 * nb) * 2 ^ Suc n, 0)"
    by (rule Suc.IH [OF len len])
  finally show ?case by simp
qed

lemma generic_run:
  assumes "k < 32" "length frame = 2 ^ k" "length temp = 2 ^ k" "length msk = 2 ^ k"
    and "length frozen = frozen_before msk (2 ^ k)" "length info = info_before msk (2 ^ k)"
  shows "volk_8u_x3_encodepolar_8u_x2_generic frame temp msk frozen info (2 ^ k) =
         Some (case spec_passes k (frame, interleaved msk frozen info (2 ^ k), 1, 2 ^ k div 2) of
                 (F, T, bc, hf) \<Rightarrow> (F, T))"
proof -
  let ?T = "interleaved msk frozen info (2 ^ k)"
  have il: "interleave_frozen_and_info_bits temp msk frozen info (2 ^ k) = Some ?T"
    using interleave_run [of msk "2 ^ k" temp frozen info] assms by (simp add: unat_pow2)
  obtain F T bc hf where sp: "spec_passes k (frame, ?T, 1, 2 ^ k div 2) = (F, T, bc, hf)"
    using prod_cases4 by blast
  have st: "generic_stages (of_nat k) (2 ^ k) (frame, ?T, 1, drop_bit 1 (2 ^ k)) =
            Some (F, T, of_nat bc, of_nat hf)"
    using generic_stages_spec [of k k frame ?T] assms sp by simp
  show ?thesis
    using assms(1) sp st
    by (simp add: volk_8u_x3_encodepolar_8u_x2_generic_def log2_pow2 il)
qed

lemma spec_passes_final:
  assumes "length frame = 2 ^ k" "length temp = 2 ^ k"
  shows "spec_passes k (frame, temp, Suc 0, 2 ^ k div 2) =
         (if k = 0 then (frame, temp, Suc 0, 0)
          else (upasses k (Suc 0) temp, upasses k (Suc 0) temp, 2 ^ k, 0))"
proof (cases k)
  case 0
  then show ?thesis by simp
next
  case (Suc n)
  then show ?thesis
    using spec_passes_upasses [of frame 1 n temp] assms by simp
qed

lemma length_upasses:
  "length xs = nb * 2 ^ n \<Longrightarrow> length (upasses n nb xs) = nb * 2 ^ n"
proof (induction n arbitrary: nb xs)
  case 0
  then show ?case by simp
next
  case (Suc n)
  have "length (pass_rec nb (2 ^ n) xs) = (2 * nb) * 2 ^ n" by simp
  from Suc.IH [OF this] show ?case by (simp add: mult.assoc)
qed

lemma generic_result:
  assumes "k < 32" "length frame = 2 ^ k" "length temp = 2 ^ k" "length msk = 2 ^ k"
    and "length frozen = frozen_before msk (2 ^ k)" "length info = info_before msk (2 ^ k)"
  shows "volk_8u_x3_encodepolar_8u_x2_generic frame temp msk frozen info (2 ^ k) =
         Some (if k = 0 then (frame, interleaved msk frozen info (2 ^ k))
               else (upasses k 1 (interleaved msk frozen info (2 ^ k)),
                     upasses k 1 (interleaved msk frozen info (2 ^ k))))"
  using generic_run [OF assms] assms(2)
  by (simp add: spec_passes_final)

text \<open>
  Claim C2. For \<open>frame_size = 2 ^ k\<close> the scalar encoder makes exactly \<open>k\<close> passes: its
  \<open>while\<close> loop, started with \<open>num_branches = 1\<close> and \<open>frame_half = frame_size >> 1\<close>
  on the interleaved buffer, ends in the state that \<open>k\<close> passes of the specification
  reach, where a pass writes \<open>frame[branchOffset + j]\<close> and \<open>frame[branchOffset + j + half]\<close>
  for every branch and every \<open>j < half\<close>, copies \<open>frame\<close> to \<open>temp\<close>, doubles the
  branch count and halves \<open>half\<close>; at the end the branch count is \<open>2 ^ k\<close> and \<open>half\<close>
  is 0.
\<close>

theorem generic_performs_spec_passes:
  assumes "k < 32" "length frame = 2 ^ k" "length temp = 2 ^ k" "length msk = 2 ^ k"
    and "length frozen = frozen_before msk (2 ^ k)" "length info = info_before msk (2 ^ k)"
  shows "case spec_passes k (frame, interleaved msk frozen info (2 ^ k), 1, 2 ^ k div 2) of
           (F, T, branchCount, half) \<Rightarrow>
             branchCount = 2 ^ k \<and> half = 0 \<and>
             generic_stages (log2_of_power_of_2 (2 ^ k)) (2 ^ k)
               (frame, interleaved msk frozen info (2 ^ k), 1, drop_bit 1 (2 ^ k)) =
               Some (F, T, 2 ^ k, 0) \<and>
             volk_8u_x3_encodepolar_8u_x2_generic frame temp msk frozen info (2 ^ k) =
               Some (F, T)"
proof -
  let ?T = "interleaved msk frozen info (2 ^ k)"
  obtain F T bc hf where sp: "spec_passes k (frame, ?T, 1, 2 ^ k div 2) = (F, T, bc, hf)"
    using prod_cases4 by blast
  have fin: "bc = 2 ^ k" "hf = 0"
    using sp spec_passes_final [of frame k ?T] assms(2) by (auto split: if_splits)
  have st: "generic_stages (of_nat k) (2 ^ k) (frame, ?T, 1, drop_bit 1 (2 ^ k)) =
            Some (F, T, of_nat bc, of_nat hf)"
    using generic_stages_spec [of k k frame ?T] assms sp by simp
  have run: "volk_8u_x3_encodepolar_8u_x2_generic frame temp msk frozen info (2 ^ k) = Some (F, T)"
    using generic_run [OF assms] sp by simp
  show ?thesis
    using st run fin sp assms(1) by (simp add: log2_pow2)
qed

theorem generic_performs_spec_passes_witness:
  "spec_passes 2 ([9, 9, 9, 9], [0, 1, 0, 0], 1, 2) = ([1, 0, 1, 0], [1, 0, 1, 0], 4, 0) \<and>
   generic_stages 2 4 ([9, 9, 9, 9], [0, 1, 0, 0], 1, 2) = Some ([1, 0, 1, 0], [1, 0, 1, 0], 4, 0) \<and>
   volk_8u_x3_encodepolar_8u_x2_generic [9, 9, 9, 9] [7, 7, 7, 7] [1, 0, 0, 1] [0, 0] [1, 0] 4 =
     Some ([1, 0, 1, 0], [1, 0, 1, 0])"
proof -
  have sp: "spec_passes 2 ([9, 9, 9, 9], [0, 1, 0, 0], 1, 2) = ([1, 0, 1, 0], [1, 0, 1, 0], 4, 0)"
    by code_simp
  have il: "interleaved [1, 0, 0, 1] [0, 0] [1, 0] 4 = [0, 1, 0, 0]"
    by code_simp
  have lg: "log2_of_power_of_2 4 = 2" by code_simp
  have db: "drop_bit 1 (4 :: u32) = 2" by code_simp
  from generic_performs_spec_passes
            [of 2 "[9, 9, 9, 9]" "[7, 7, 7, 7]" "[1, 0, 0, 1]" "[0, 0]" "[1, 0]"]
  show ?thesis
    using sp il lg db by (simp add: frozen_before_def info_before_def)
qed

text \<open>
  Claim C6. For \<open>frame_size = 4\<close>, mask \<open>[1,0,0,1]\<close>, frozen values \<open>[0,0]\<close> and info values
  \<open>[1,0]\<close> the interleaved working buffer is \<open>[0,1,0,0]\<close> and the scalar encoder leaves
  \<open>[1,0,1,0]\<close> in \<open>frame\<close>, whatever the two buffers held before.
\<close>

theorem generic_scenario_frozen:
  assumes "length frame = 4" "length temp = 4"
  shows "interleave_frozen_and_info_bits temp [1, 0, 0, 1] [0, 0] [1, 0] 4 = Some [0, 1, 0, 0] \<and>
         volk_8u_x3_encodepolar_8u_x2_generic frame temp [1, 0, 0, 1] [0, 0] [1, 0] 4 =
           Some ([1, 0, 1, 0], [1, 0, 1, 0])"
proof -
  have il: "interleaved [1, 0, 0, 1] [0, 0] [1, 0] 4 = [0, 1, 0, 0]"
    by code_simp
  have up: "upasses 2 (Suc 0) [0, 1, 0, 0] = [1, 0, 1, 0]"
    by code_simp
  have "interleave_frozen_and_info_bits temp [1, 0, 0, 1] [0, 0] [1, 0] 4 = Some [0, 1, 0, 0]"
    using interleave_run [of "[1, 0, 0, 1]" 4 temp "[0, 0]" "[1, 0]"] assms il
    by (simp add: frozen_before_def info_before_def)
  moreover have "volk_8u_x3_encodepolar_8u_x2_generic frame temp [1, 0, 0, 1] [0, 0] [1, 0] 4 =
           Some ([1, 0, 1, 0], [1, 0, 1, 0])"
    using generic_result [of 2 frame temp "[1, 0, 0, 1]" "[0, 0]" "[1, 0]"] assms il up
    by (simp add: frozen_before_def info_before_def)
  ultimately show ?thesis by simp
qed

theorem generic_scenario_frozen_witness:
  "interleave_frozen_and_info_bits [5, 5, 5, 5] [1, 0, 0, 1] [0, 0] [1, 0] 4 = Some [0, 1, 0, 0] \<and>
   volk_8u_x3_encodepolar_8u_x2_generic [6, 6, 6, 6] [5, 5, 5, 5] [1, 0, 0, 1] [0, 0] [1, 0] 4 =
     Some ([1, 0, 1, 0], [1, 0, 1, 0])"
  using generic_scenario_frozen [of "[6, 6, 6, 6]" "[5, 5, 5, 5]"] by simp

text \<open>
  Claim C9. For \<open>frame_size = 2 ^ k\<close> with \<open>k \<ge> 1\<close>, after the scalar encoder returns
  \<open>temp\<close> holds the same \<open>frame_size\<close> bytes as \<open>frame\<close>.
\<close>

theorem generic_temp_equals_frame:
  assumes "1 \<le> k" "k < 32" "length frame = 2 ^ k" "length temp = 2 ^ k" "length msk = 2 ^ k"
    and "length frozen = frozen_before msk (2 ^ k)" "length info = info_before msk (2 ^ k)"
  shows "\<exists>F. volk_8u_x3_encodepolar_8u_x2_generic frame temp msk frozen info (2 ^ k) =
               Some (F, F) \<and> length F = 2 ^ k"
  using generic_result [OF assms(2-)] assms(1)
    length_upasses [of "interleaved msk frozen info (2 ^ k)" 1 k]
  by simp

theorem generic_temp_equals_frame_witness:
  "\<exists>F. volk_8u_x3_encodepolar_8u_x2_generic [6, 6] [5, 5] [0, 1] [1] [1] 2 = Some (F, F) \<and>
       length F = 2"
  using generic_temp_equals_frame [of 1 "[6, 6]" "[5, 5]" "[0, 1]" "[1]" "[1]"]
  by (simp add: frozen_before_def info_before_def)

text \<open>
  Claim C5. For \<open>frame_size = 1\<close> the scalar encoder makes no pass, and \<open>frame\<close> is
  claimed to hold the interleaved value. The encoder writes the interleaved value to
  \<open>temp\<close> only: with mask \<open>[0]\<close> and info value 1 a \<open>frame\<close> that held 0 still holds 0.
\<close>

theorem generic_frame_size_one_frame_untouched:
  "volk_8u_x3_encodepolar_8u_x2_generic [0] [0] [0] [] [1] 1 = Some ([0], [1])"
  using generic_result [of 0 "[0]" "[0]" "[0]" "[]" "[1]"]
  by (simp add: frozen_before_def info_before_def interleaved_def interleaved_cell_def)

section \<open>The register computations on explicit lanes\<close>

lemma list16:
  assumes "length v = 16"
  obtains x0 x1 x2 x3 x4 x5 x6 x7 x8 x9 x10 x11 x12 x13 x14 x15
  where "v = [x0, x1, x2, x3, x4, x5, x6, x7, x8, x9, x10, x11, x12, x13, x14, x15]"
  using assms by (auto simp: eval_nat_numeral length_Suc_conv)

lemma byte_and_255: "(x :: byte) AND 255 = x"
proof -
  have "(255 :: byte) = - 1" by simp
  then show ?thesis by (simp only: and.right_neutral)
qed

lemma coarse_sep_explicit:
  "coarse_sep [x0, x1, x2, x3, x4, x5, x6, x7, x8, x9, x10, x11, x12, x13, x14, x15] =
     [x0 XOR x1, x2 XOR x3, x4 XOR x5, x6 XOR x7, x8 XOR x9, x10 XOR x11, x12 XOR x13,
      x14 XOR x15, x1, x3, x5, x7, x9, x11, x13, x15]"
  by (simp add: coarse_sep_def mm_shuffle_epi8_def mm_xor_si128_def mm_and_si128_def
      mm_bsrli_si128_def mask_stage1_def shuffle_separate_def mm_set_epi8_def mm_setr_epi8_def
      byte_and_255 xor.commute)

lemma replicate_numeral_Cons:
  "replicate (numeral n) x = x # replicate (pred_numeral n) x"
  by (simp add: numeral_eq_Suc)

lemma fine_shuffle_explicit:
  "mm_shuffle_epi8 
       [x0, x1, x2, x3, x4, x5, x6, x7, x8, x9, x10, x11, x12, x13, x14, x15] shuffle_stage4 =
     [x0, x8, x4, x12, x2, x10, x6, x14, x1, x9, x5, x13, x3, x11, x7, x15]"
  by (simp add: mm_shuffle_epi8_def shuffle_stage4_def mm_setr_epi8_def)

lemma fine_stage4_explicit:
  "mm_xor_si128 (mm_and_si128 (mm_bsrli_si128 
       [x0, x1, x2, x3, x4, x5, x6, x7, x8, x9, x10, x11, x12, x13, x14, x15] 8) mask_stage4) 
       [x0, x1, x2, x3, x4, x5, x6, x7, x8, x9, x10, x11, x12, x13, x14, x15] =
     [x0 XOR x8, x1 XOR x9, x2 XOR x10, x3 XOR x11, x4 XOR x12, x5 XOR x13, x6 XOR x14,
      x7 XOR x15, x8, x9, x10, x11, x12, x13, x14, x15]"
  by (simp add: mm_xor_si128_def mm_and_si128_def mm_bsrli_si128_def mask_stage4_def
      mm_set_epi8_def byte_and_255 xor.commute replicate_numeral_Cons)

lemma fine_stage3_explicit:
  "mm_xor_si128 (mm_and_si128 (mm_bsrli_si128 
       [x0, x1, x2, x3, x4, x5, x6, x7, x8, x9, x10, x11, x12, x13, x14, x15] 4) mask_stage3) 
       [x0, x1, x2, x3, x4, x5, x6, x7, x8, x9, x10, x11, x12, x13, x14, x15] =
     [x0 XOR x4, x1 XOR x5, x2 XOR x6, x3 XOR x7, x4, x5, x6, x7,
      x8 XOR x12, x9 XOR x13, x10 XOR x14, x11 XOR x15, x12, x13, x14, x15]"
  by (simp add: mm_xor_si128_def mm_and_si128_def mm_bsrli_si128_def mask_stage3_def
      mm_set_epi8_def byte_and_255 xor.commute replicate_numeral_Cons)

lemma fine_stage2_explicit:
  "mm_xor_si128 (mm_and_si128 (mm_bsrli_si128 
       [x0, x1, x2, x3, x4, x5, x6, x7, x8, x9, x10, x11, x12, x13, x14, x15] 2) mask_stage2) 
       [x0, x1, x2, x3, x4, x5, x6, x7, x8, x9, x10, x11, x12, x13, x14, x15] =
     [x0 XOR x2, x1 XOR x3, x2, x3, x4 XOR x6, x5 XOR x7, x6, x7,
      x8 XOR x10, x9 XOR x11, x10, x11, x12 XOR x14, x13 XOR x15, x14, x15]"
  by (simp add: mm_xor_si128_def mm_and_si128_def mm_bsrli_si128_def mask_stage2_def
      mm_set_epi8_def byte_and_255 xor.commute replicate_numeral_Cons)

lemma fine_stage1_explicit:
  "mm_xor_si128 (mm_and_si128 (mm_bsrli_si128 
       [x0, x1, x2, x3, x4, x5, x6, x7, x8, x9, x10, x11, x12, x13, x14, x15] (Suc 0)) mask_stage1) 
       [x0, x1, x2, x3, x4, x5, x6, x7, x8, x9, x10, x11, x12, x13, x14, x15] =
     [x0 XOR x1, x1, x2 XOR x3, x3, x4 XOR x5, x5, x6 XOR x7, x7,
      x8 XOR x9, x9, x10 XOR x11, x11, x12 XOR x13, x13, x14 XOR x15, x15]"
  by (simp add: mm_xor_si128_def mm_and_si128_def mm_bsrli_si128_def mask_stage1_def
      mm_set_epi8_def byte_and_255 xor.commute replicate_numeral_Cons)

lemma pass_rec_numeral:
  "pass_rec (numeral n) h xs =
     butterfly h (take (2 * h) xs) @ pass_rec (pred_numeral n) h (drop (2 * h) xs)"
  by (simp add: numeral_eq_Suc)

lemma upasses_4:
  "upasses 4 nb xs =
     pass_rec (8 * nb) 1 (pass_rec (4 * nb) 2 (pass_rec (2 * nb) 4 (pass_rec nb 8 xs)))"
proof -
  have "upasses (Suc (Suc (Suc (Suc 0)))) nb xs =
     pass_rec (8 * nb) 1 (pass_rec (4 * nb) 2 (pass_rec (2 * nb) 4 (pass_rec nb 8 xs)))"
    by (simp add: mult.assoc)
  then show ?thesis by (simp add: eval_nat_numeral)
qed

lemma butterfly_8_explicit:
  "butterfly 8 
       [x0, x1, x2, x3, x4, x5, x6, x7, x8, x9, x10, x11, x12, x13, x14, x15] =
     [x0 XOR x1, x2 XOR x3, x4 XOR x5, x6 XOR x7, x8 XOR x9, x10 XOR x11, x12 XOR x13,
      x14 XOR x15, x1, x3, x5, x7, x9, x11, x13, x15]"
  by (simp add: butterfly_def upt_rec)

lemma butterfly_4_explicit:
  "butterfly 4 [x0, x1, x2, x3, x4, x5, x6, x7] =
     [x0 XOR x1, x2 XOR x3, x4 XOR x5, x6 XOR x7, x1, x3, x5, x7]"
  by (simp add: butterfly_def upt_rec)

lemma butterfly_2_explicit:
  "butterfly 2 [x0, x1, x2, x3] = [x0 XOR x1, x2 XOR x3, x1, x3]"
  by (simp add: butterfly_def upt_rec)

lemma butterfly_1_explicit:
  "butterfly (Suc 0) [x0, x1] = [x0 XOR x1, x1]"
  by (simp add: butterfly_def)

lemma pass_8_explicit:
  "pass_rec (Suc 0) 8 
       [x0, x1, x2, x3, x4, x5, x6, x7, x8, x9, x10, x11, x12, x13, x14, x15] =
     [x0 XOR x1, x2 XOR x3, x4 XOR x5, x6 XOR x7, x8 XOR x9, x10 XOR x11, x12 XOR x13,
      x14 XOR x15, x1, x3, x5, x7, x9, x11, x13, x15]"
  by (simp add: butterfly_8_explicit)

lemma pass_4_explicit:
  "pass_rec 2 4 
       [x0, x1, x2, x3, x4, x5, x6, x7, x8, x9, x10, x11, x12, x13, x14, x15] =
     [x0 XOR x1, x2 XOR x3, x4 XOR x5, x6 XOR x7, x1, x3, x5, x7,
      x8 XOR x9, x10 XOR x11, x12 XOR x13, x14 XOR x15, x9, x11, x13, x15]"
  by (simp add: pass_rec_numeral butterfly_4_explicit)

lemma pass_2_explicit:
  "pass_rec 4 2 
       [x0, x1, x2, x3, x4, x5, x6, x7, x8, x9, x10, x11, x12, x13, x14, x15] =
     [x0 XOR x1, x2 XOR x3, x1, x3, x4 XOR x5, x6 XOR x7, x5, x7,
      x8 XOR x9, x10 XOR x11, x9, x11, x12 XOR x13, x14 XOR x15, x13, x15]"
  by (simp add: pass_rec_numeral butterfly_2_explicit)

lemma pass_1_explicit:
  "pass_rec 8 (Suc 0) 
       [x0, x1, x2, x3, x4, x5, x6, x7, x8, x9, x10, x11, x12, x13, x14, x15] =
     [x0 XOR x1, x1, x2 XOR x3, x3, x4 XOR x5, x5, x6 XOR x7, x7,
      x8 XOR x9, x9, x10 XOR x11, x11, x12 XOR x13, x13, x14 XOR x15, x15]"
  by (simp add: pass_rec_numeral butterfly_1_explicit)

lemma fine_chunk_explicit:
  "fine_chunk 
       [x0, x1, x2, x3, x4, x5, x6, x7, x8, x9, x10, x11, x12, x13, x14, x15] = upasses 4 (Suc 0) 
       [x0, x1, x2, x3, x4, x5, x6, x7, x8, x9, x10, x11, x12, x13, x14, x15]"
  unfolding upasses_4
  by (simp add: fine_chunk_def Let_def fine_shuffle_explicit fine_stage4_explicit
      fine_stage3_explicit fine_stage2_explicit fine_stage1_explicit
      butterfly_8_explicit pass_4_explicit pass_2_explicit pass_1_explicit
      xor.assoc xor.commute xor.left_commute)

section \<open>The coarse tier\<close>

lemma fold_spec_write_range_nth:
  assumes "m \<le> n" "n \<le> half" "bo + 2 * half \<le> length frame" "i < length frame"
  shows "fold (spec_write half temp bo) [m..<n] frame ! i =
         (if bo + m \<le> i \<and> i < bo + n
          then temp ! (bo + 2 * (i - bo)) XOR temp ! (bo + 2 * (i - bo) + 1)
          else if bo + half + m \<le> i \<and> i < bo + half + n
          then temp ! (bo + 2 * (i - bo - half) + 1)
          else frame ! i)"
  using assms
proof (induction n)
  case 0
  then show ?case by auto
next
  case (Suc n)
  show ?case
  proof (cases "m = Suc n")
    case True
    then show ?thesis by auto
  next
    case False
    with Suc.prems have mn: "m \<le> n" by simp
    define G where "G = fold (spec_write half temp bo) [m..<n] frame"
    have lenG: "length G = length frame" by (simp add: G_def)
    from Suc mn have IH: "G ! i =
         (if bo + m \<le> i \<and> i < bo + n
          then temp ! (bo + 2 * (i - bo)) XOR temp ! (bo + 2 * (i - bo) + 1)
          else if bo + half + m \<le> i \<and> i < bo + half + n
          then temp ! (bo + 2 * (i - bo - half) + 1)
          else frame ! i)" by (simp add: G_def)
    have unfold: "fold (spec_write half temp bo) [m..<Suc n] frame = spec_write half temp bo n G"
      using mn by (simp add: G_def)
    have eq1: "i = bo + n \<Longrightarrow> i - bo = n" by simp
    have eq2: "i = bo + n + half \<Longrightarrow> i - (bo + half) = n" by simp
    show ?thesis
      unfolding unfold using Suc.prems lenG mn
      by (auto simp: spec_write_def nth_list_update IH eq1 eq2)
  qed
qed

lemma length_store16:
  "off + 16 \<le> length buf \<Longrightarrow> length v = 16 \<Longrightarrow> length (store16 buf off v) = length buf"
  by (simp add: store16_def)

lemma nth_store16:
  assumes "off + 16 \<le> length buf" "length v = 16" "i < length buf"
  shows "store16 buf off v ! i = (if off \<le> i \<and> i < off + 16 then v ! (i - off) else buf ! i)"
proof -
  consider "i < off" | "off \<le> i" "i < off + 16" | "off + 16 \<le> i" by linarith
  then show ?thesis
  proof cases
    case 1
    then show ?thesis using assms by (simp add: store16_def nth_append)
  next
    case 2
    then have "i - off < 16" by simp
    with 2 show ?thesis using assms by (simp add: store16_def nth_append)
  next
    case 3
    then have "\<not> i - off < 16" "off + 16 + (i - (off + 16)) = i" "i - off - 16 = i - (off + 16)"
      "\<not> i < off" "\<not> i < off + 16"
      by simp_all
    then show ?thesis using assms by (simp add: store16_def nth_append)
  qed
qed

lemma mm_storeu_si128_store16:
  "off + 16 \<le> length buf \<Longrightarrow> mm_storeu_si128 buf off v = Some (store16 buf off v)"
  by (simp add: mm_storeu_si128_def store16_def)

lemma take_drop_map_nth:
  "off + n \<le> length xs \<Longrightarrow> take n (drop off xs) = map (\<lambda>i. xs ! (off + i)) [0..<n]"
  by (rule nth_equalityI) simp_all

lemma coarse_lo_regs:
  assumes "length v0 = 16" "length v1 = 16"
  shows "mm_unpacklo_epi64 (coarse_sep v0) (coarse_sep v1) =
         map (\<lambda>j. (v0 @ v1) ! (2 * j) XOR (v0 @ v1) ! (2 * j + 1)) [0..<16]"
proof -
  from assms(1) obtain x0 x1 x2 x3 x4 x5 x6 x7 x8 x9 x10 x11 x12 x13 x14 x15
    where v0: "v0 = [x0, x1, x2, x3, x4, x5, x6, x7, x8, x9, x10, x11, x12, x13, x14, x15]"
    by (rule list16)
  from assms(2) obtain y0 y1 y2 y3 y4 y5 y6 y7 y8 y9 y10 y11 y12 y13 y14 y15
    where v1: "v1 = [y0, y1, y2, y3, y4, y5, y6, y7, y8, y9, y10, y11, y12, y13, y14, y15]"
    by (rule list16)
  show ?thesis
    unfolding v0 v1 coarse_sep_explicit
    by (simp add: upt_rec mm_unpacklo_epi64_def)
qed

lemma coarse_hi_regs:
  assumes "length v0 = 16" "length v1 = 16"
  shows "mm_unpackhi_epi64 (coarse_sep v0) (coarse_sep v1) =
         map (\<lambda>j. (v0 @ v1) ! (2 * j + 1)) [0..<16]"
proof -
  from assms(1) obtain x0 x1 x2 x3 x4 x5 x6 x7 x8 x9 x10 x11 x12 x13 x14 x15
    where v0: "v0 = [x0, x1, x2, x3, x4, x5, x6, x7, x8, x9, x10, x11, x12, x13, x14, x15]"
    by (rule list16)
  from assms(2) obtain y0 y1 y2 y3 y4 y5 y6 y7 y8 y9 y10 y11 y12 y13 y14 y15
    where v1: "v1 = [y0, y1, y2, y3, y4, y5, y6, y7, y8, y9, y10, y11, y12, y13, y14, y15]"
    by (rule list16)
  show ?thesis
    unfolding v0 v1 coarse_sep_explicit
    by (simp add: upt_rec mm_unpackhi_epi64_def)
qed

lemma take32_nth:
  assumes "tp + 32 \<le> length temp" "i < 32"
  shows "(take 16 (drop tp temp) @ take 16 (drop (tp + 16) temp)) ! i = temp ! (tp + i)"
proof -
  have "take 16 (drop tp temp) @ take 16 (drop (tp + 16) temp) = take 32 (drop tp temp)"
    using take_add [of 16 16 "drop tp temp"] by (simp add: add.commute)
  then show ?thesis using assms by simp
qed

lemma coarse_lo:
  assumes "tp + 32 \<le> length temp"
  shows "mm_unpacklo_epi64 (coarse_sep (take 16 (drop tp temp)))
           (coarse_sep (take 16 (drop (tp + 16) temp))) =
         map (\<lambda>j. temp ! (tp + 2 * j) XOR temp ! (tp + 2 * j + 1)) [0..<16]"
  using assms
  by (subst coarse_lo_regs) (simp_all add: take32_nth)

lemma coarse_hi:
  assumes "tp + 32 \<le> length temp"
  shows "mm_unpackhi_epi64 (coarse_sep (take 16 (drop tp temp)))
           (coarse_sep (take 16 (drop (tp + 16) temp))) =
         map (\<lambda>j. temp ! (tp + 2 * j + 1)) [0..<16]"
  using assms
  by (subst coarse_hi_regs) (simp_all add: take32_nth)

lemma coarse_chunk:
  assumes "bit_i + 16 \<le> fh" "bo + 2 * fh \<le> length temp" "bo + 2 * fh \<le> length frame"
  shows "store16
           (store16 frame (bo + bit_i)
              (map (\<lambda>j. temp ! (bo + 2 * bit_i + 2 * j) XOR temp ! (bo + 2 * bit_i + 2 * j + 1))
                 [0..<16]))
           (bo + bit_i + fh)
           (map (\<lambda>j. temp ! (bo + 2 * bit_i + 2 * j + 1)) [0..<16]) =
         fold (spec_write fh temp bo) [bit_i..<bit_i + 16] frame"
    (is "store16 (store16 frame ?p ?LO) ?q ?HI = ?R")
proof (rule nth_equalityI)
  have len1: "length (store16 frame ?p ?LO) = length frame"
    using assms by (intro length_store16) simp_all
  show len: "length (store16 (store16 frame ?p ?LO) ?q ?HI) = length ?R"
    using assms len1 by (simp add: length_store16)
  fix i assume "i < length (store16 (store16 frame ?p ?LO) ?q ?HI)"
  then have i: "i < length frame" using len by simp
  have L: "store16 (store16 frame ?p ?LO) ?q ?HI ! i =
           (if ?q \<le> i \<and> i < ?q + 16 then ?HI ! (i - ?q)
            else if ?p \<le> i \<and> i < ?p + 16 then ?LO ! (i - ?p) else frame ! i)"
    using assms i len1 by (simp add: nth_store16)
  have "?R ! i =
         (if bo + bit_i \<le> i \<and> i < bo + (bit_i + 16)
          then temp ! (bo + 2 * (i - bo)) XOR temp ! (bo + 2 * (i - bo) + 1)
          else if bo + fh + bit_i \<le> i \<and> i < bo + fh + (bit_i + 16)
          then temp ! (bo + 2 * (i - bo - fh) + 1)
          else frame ! i)"
    using assms i by (intro fold_spec_write_range_nth) simp_all
  moreover have "bo + (bit_i + 16) = ?p + 16" "bo + fh + bit_i = ?q"
    "bo + fh + (bit_i + 16) = ?q + 16" by simp_all
  ultimately have R: "?R ! i =
         (if ?q \<le> i \<and> i < ?q + 16 then temp ! (bo + 2 * (i - bo - fh) + 1)
          else if ?p \<le> i \<and> i < ?p + 16
          then temp ! (bo + 2 * (i - bo)) XOR temp ! (bo + 2 * (i - bo) + 1)
          else frame ! i)"
    using assms(1) by (simp only:) auto
  consider (lo) d where "i = bo + bit_i + d" "d < 16"
    | (hi) d where "i = bo + bit_i + fh + d" "d < 16"
    | (out) "\<not> (bo + bit_i \<le> i \<and> i < bo + bit_i + 16)"
            "\<not> (bo + bit_i + fh \<le> i \<and> i < bo + bit_i + fh + 16)"
  proof -
    have "(bo + bit_i \<le> i \<and> i < bo + bit_i + 16) \<Longrightarrow> \<exists>d. i = bo + bit_i + d \<and> d < 16"
      by (rule exI [of _ "i - (bo + bit_i)"]) auto
    moreover have "(bo + bit_i + fh \<le> i \<and> i < bo + bit_i + fh + 16) \<Longrightarrow>
                   \<exists>d. i = bo + bit_i + fh + d \<and> d < 16"
      by (rule exI [of _ "i - (bo + bit_i + fh)"]) auto
    ultimately show ?thesis using lo hi out by blast
  qed
  then show "store16 (store16 frame ?p ?LO) ?q ?HI ! i = ?R ! i"
  proof cases
    case lo
    have a: "bo + bit_i + d - bo = bit_i + d" by simp
    show ?thesis
      unfolding L R using lo assms(1) by (simp add: a algebra_simps)
  next
    case hi
    have a: "bo + bit_i + fh + d - bo - fh = bit_i + d" by simp
    show ?thesis
      unfolding L R using hi assms(1) by (simp add: a algebra_simps)
  next
    case out
    show ?thesis
      unfolding L R by (simp only: out if_False)
  qed
qed

lemma mm_loadu_si128_in:
  "off + 16 \<le> length buf \<Longrightarrow> mm_loadu_si128 buf off = Some (take 16 (drop off buf))"
  by (simp add: mm_loadu_si128_def)

lemma coarse_bits_spec:
  assumes ld: "\<And>buf off. 16 dvd off \<Longrightarrow> ld buf off = mm_loadu_si128 buf off"
    and st: "\<And>buf off v. 16 dvd off \<Longrightarrow> st buf off v = mm_storeu_si128 buf off v"
    and "bit_i \<le> fh" "16 dvd bit_i" "16 dvd fh" "16 dvd bo"
    and "bo + 2 * fh \<le> length temp" "bo + 2 * fh \<le> length frame"
  shows "coarse_bits ld st bit_i fh temp (frame, bo + bit_i, bo + 2 * bit_i) =
         Some (fold (spec_write fh temp bo) [bit_i..<fh] frame, bo + fh, bo + 2 * fh)"
  using assms(3-)
proof (induction "fh - bit_i" arbitrary: bit_i frame rule: less_induct)
  case less
  show ?case
  proof (cases "bit_i < fh")
    case False
    with less.prems have "bit_i = fh" by simp
    then show ?thesis by (subst coarse_bits.simps) simp
  next
    case True
    obtain a c where a: "bit_i = 16 * a" and c: "fh = 16 * c"
      using less.prems unfolding dvd_def by blast
    with True have "a < c" by simp
    then have "Suc a \<le> c" by simp
    then have "16 * Suc a \<le> 16 * c" by (rule mult_le_mono2)
    then have le: "bit_i + 16 \<le> fh" using a c by simp
    let ?tp = "bo + 2 * bit_i"
    let ?LO = "map (\<lambda>j. temp ! (?tp + 2 * j) XOR temp ! (?tp + 2 * j + 1)) [0..<16]"
    let ?HI = "map (\<lambda>j. temp ! (?tp + 2 * j + 1)) [0..<16]"
    let ?f1 = "store16 frame (bo + bit_i) ?LO"
    let ?f2 = "store16 ?f1 (bo + bit_i + fh) ?HI"
    have tp32: "?tp + 32 \<le> length temp" using le less.prems by simp
    have d1: "16 dvd ?tp" "16 dvd ?tp + 16" "16 dvd bo + bit_i" "16 dvd bo + bit_i + fh"
      using less.prems by simp_all
    have l0: "ld temp ?tp = Some (take 16 (drop ?tp temp))"
      using tp32 by (simp add: ld [OF d1(1)] mm_loadu_si128_in)
    have l1: "ld temp (?tp + 16) = Some (take 16 (drop (?tp + 16) temp))"
      using tp32 by (simp add: ld [OF d1(2)] mm_loadu_si128_in)
    have len1: "length ?f1 = length frame"
      using le less.prems by (intro length_store16) simp_all
    have s0: "st frame (bo + bit_i) ?LO = Some ?f1"
      using le less.prems by (simp add: st [OF d1(3)] mm_storeu_si128_store16)
    have s1: "st ?f1 (bo + bit_i + fh) ?HI = Some ?f2"
      using le less.prems len1 by (simp add: st [OF d1(4)] mm_storeu_si128_store16)
    have f2: "?f2 = fold (spec_write fh temp bo) [bit_i..<bit_i + 16] frame"
      using le less.prems by (intro coarse_chunk) simp_all
    have len2: "length ?f2 = length frame"
      by (simp only: f2 length_fold_spec_write)
    have step: "coarse_bits ld st bit_i fh temp (frame, bo + bit_i, bo + 2 * bit_i) =
                coarse_bits ld st (bit_i + 16) fh temp
                  (?f2, bo + (bit_i + 16), bo + 2 * (bit_i + 16))"
      using True l0 l1 coarse_lo [OF tp32] coarse_hi [OF tp32] s0 s1
      by (subst coarse_bits.simps) (simp add: Let_def coarse_sep_def add.assoc)
    have IH: "coarse_bits ld st (bit_i + 16) fh temp
                (?f2, bo + (bit_i + 16), bo + 2 * (bit_i + 16)) =
              Some (fold (spec_write fh temp bo) [bit_i + 16..<fh] ?f2, bo + fh, bo + 2 * fh)"
      using le less.prems True len2 by (intro less.hyps) simp_all
    have split: "[bit_i..<fh] = [bit_i..<bit_i + 16] @ [bit_i + 16..<fh]"
      using le upt_add_eq_append [of bit_i "bit_i + 16" "fh - (bit_i + 16)"] by simp
    have fin: "fold (spec_write fh temp bo) [bit_i + 16..<fh] ?f2 =
               fold (spec_write fh temp bo) [bit_i..<fh] frame"
      by (simp only: f2 split fold_append o_apply)
    show ?thesis
      unfolding step IH fin by (rule refl)
  qed
qed

lemma coarse_branches_spec:
  assumes ld: "\<And>buf off. 16 dvd off \<Longrightarrow> ld buf off = mm_loadu_si128 buf off"
    and st: "\<And>buf off v. 16 dvd off \<Longrightarrow> st buf off v = mm_storeu_si128 buf off v"
    and "branch \<le> nb" "16 dvd fh"
    and "nb * (2 * fh) \<le> length temp" "nb * (2 * fh) \<le> length frame"
  shows "coarse_branches ld st branch nb fh temp (frame, branch * (2 * fh), branch * (2 * fh)) =
         Some (fold (\<lambda>k. spec_branch fh temp (k * (2 * fh))) [branch..<nb] frame,
               nb * (2 * fh), nb * (2 * fh))"
  using assms(3-)
proof (induction "nb - branch" arbitrary: branch frame)
  case 0
  then show ?case by (subst coarse_branches.simps) simp
next
  case (Suc d)
  then have lt: "branch < nb" and d: "d = nb - Suc branch" by auto
  let ?bo = "branch * (2 * fh)"
  have "Suc branch * (2 * fh) \<le> nb * (2 * fh)"
    using lt by (intro mult_le_mono1) simp
  then have bnd: "?bo + 2 * fh \<le> length temp" "?bo + 2 * fh \<le> length frame"
    using Suc.prems by simp_all
  have dv: "16 dvd ?bo" using Suc.prems by simp
  have bits: "coarse_bits ld st 0 fh temp (frame, ?bo, ?bo) =
              Some (spec_branch fh temp ?bo frame, ?bo + fh, ?bo + 2 * fh)"
    using coarse_bits_spec [of ld st 0 fh ?bo temp frame, OF ld st] bnd dv Suc.prems
    by (simp add: spec_branch_def)
  have IH: "coarse_branches ld st (Suc branch) nb fh temp
              (spec_branch fh temp ?bo frame, Suc branch * (2 * fh), Suc branch * (2 * fh)) =
            Some (fold (\<lambda>k. spec_branch fh temp (k * (2 * fh))) [Suc branch..<nb]
                    (spec_branch fh temp ?bo frame), nb * (2 * fh), nb * (2 * fh))"
    using Suc.hyps(1) [OF d, of "spec_branch fh temp ?bo frame"] lt Suc.prems by simp
  have step: "coarse_branches ld st branch nb fh temp (frame, ?bo, ?bo) =
              coarse_branches ld st (Suc branch) nb fh temp
                (spec_branch fh temp ?bo frame, Suc branch * (2 * fh), Suc branch * (2 * fh))"
    using lt by (subst coarse_branches.simps) (simp add: bits add.commute add.left_commute)
  show ?case
    unfolding step IH using lt by (simp add: upt_conv_Cons)
qed

section \<open>Passes on concatenated blocks\<close>

lemma length_passes_above:
  "length xs = nb * 2 ^ (m + d) \<Longrightarrow> length (passes_above m d nb xs) = nb * 2 ^ (m + d)"
proof (induction d arbitrary: nb xs)
  case 0
  then show ?case by simp
next
  case (Suc d)
  have "length (pass_rec nb (2 ^ (m + d)) xs) = (2 * nb) * 2 ^ (m + d)" by simp
  from Suc.IH [OF this] show ?case by (simp add: mult.assoc)
qed

lemma upasses_split:
  "upasses (m + d) nb xs = upasses m (nb * 2 ^ d) (passes_above m d nb xs)"
proof (induction d arbitrary: nb xs)
  case 0
  then show ?case by simp
next
  case (Suc d)
  have "upasses (m + Suc d) nb xs = upasses (m + d) (2 * nb) (pass_rec nb (2 ^ (m + d)) xs)"
    by simp
  also have "\<dots> = upasses m (2 * nb * 2 ^ d)
                      (passes_above m d (2 * nb) (pass_rec nb (2 ^ (m + d)) xs))"
    by (rule Suc.IH)
  finally show ?case by (simp add: mult.assoc mult.left_commute)
qed

lemma pass_rec_prefix:
  "a * (2 * h) \<le> length A \<Longrightarrow> pass_rec a h (A @ B) = pass_rec a h A"
proof (induction a arbitrary: A)
  case 0
  then show ?case by simp
next
  case (Suc a)
  then have "2 * h \<le> length A" "a * (2 * h) \<le> length (drop (2 * h) A)" by simp_all
  with Suc.IH [of "drop (2 * h) A"] show ?case by simp
qed

lemma pass_rec_append:
  "length A = a * (2 * h) \<Longrightarrow> pass_rec (a + c) h (A @ B) = pass_rec a h A @ pass_rec c h B"
  by (simp add: pass_rec_add pass_rec_prefix)

lemma upasses_append:
  "length A = a * 2 ^ m \<Longrightarrow> upasses m (a + c) (A @ B) = upasses m a A @ upasses m c B"
proof (induction m arbitrary: a c A B)
  case 0
  then show ?case by simp
next
  case (Suc m)
  then have len: "length A = a * (2 * 2 ^ m)" by simp
  have "upasses (Suc m) (a + c) (A @ B) =
        upasses m (2 * a + 2 * c) (pass_rec a (2 ^ m) A @ pass_rec c (2 ^ m) B)"
    by (simp add: pass_rec_append [OF len] del: pass_rec.simps)
  also have "\<dots> = upasses m (2 * a) (pass_rec a (2 ^ m) A) @
                     upasses m (2 * c) (pass_rec c (2 ^ m) B)"
    by (rule Suc.IH) (simp add: mult.assoc mult.left_commute)
  finally show ?case by simp
qed

lemma fine_chunk_upasses:
  assumes "length v = 16"
  shows "fine_chunk v = upasses 4 (Suc 0) v"
proof -
  from assms obtain x0 x1 x2 x3 x4 x5 x6 x7 x8 x9 x10 x11 x12 x13 x14 x15
    where v: "v = [x0, x1, x2, x3, x4, x5, x6, x7, x8, x9, x10, x11, x12, x13, x14, x15]"
    by (rule list16)
  show ?thesis unfolding v by (rule fine_chunk_explicit)
qed

lemma length_fine_chunk: "length v = 16 \<Longrightarrow> length (fine_chunk v) = 16"
  using length_upasses [of v 1 4] by (simp add: fine_chunk_upasses)

lemma fine_pure_upasses:
  "length xs = 16 * n \<Longrightarrow> fine_pure n xs = upasses 4 n xs"
proof (induction n arbitrary: xs)
  case 0
  then show ?case by (simp add: upasses_4)
next
  case (Suc n)
  let ?A = "take 16 xs" and ?B = "drop 16 xs"
  have lenA: "length ?A = 16" and lenB: "length ?B = 16 * n" using Suc.prems by simp_all
  have "upasses 4 (Suc 0 + n) (?A @ ?B) = upasses 4 (Suc 0) ?A @ upasses 4 n ?B"
    using lenA by (intro upasses_append) simp
  then have "upasses 4 (Suc n) xs = upasses 4 (Suc 0) ?A @ upasses 4 n ?B" by simp
  then show ?case
    using Suc.IH [OF lenB] by (simp add: fine_chunk_upasses [OF lenA])
qed

section \<open>The loops of the SSSE3 encoders\<close>

lemma unat_of_nat_small: "n < 32 \<Longrightarrow> unat (of_nat n :: u32) = n"
  by (subst unat_of_nat) simp

lemma stage_gt_4: "4 + Suc d < 32 \<Longrightarrow> (4 :: u32) < of_nat (4 + Suc d)"
proof -
  assume a: "4 + Suc d < 32"
  have "unat (4 :: u32) < unat (of_nat (4 + Suc d) :: u32)"
    unfolding unat_of_nat_small [OF a] by simp
  then show ?thesis by (simp only: word_less_nat_alt)
qed

lemma stage_not_gt_4: "\<not> (4 :: u32) < of_nat 4"
  by simp

lemma stage_pred: "(of_nat (4 + Suc d) :: u32) - 1 = of_nat (4 + d)"
  by simp

lemma pow2_16_dvd: "(16::nat) dvd 2 ^ (4 + d)"
  by (simp add: power_add)

lemma coarse_pass_pass_rec:
  assumes ld: "\<And>buf off. 16 dvd off \<Longrightarrow> ld buf off = mm_loadu_si128 buf off"
    and st: "\<And>buf off v. 16 dvd off \<Longrightarrow> st buf off v = mm_storeu_si128 buf off v"
    and "16 dvd fh" "length temp = nb * (2 * fh)" "length frame = nb * (2 * fh)"
  shows "coarse_branches ld st 0 nb fh (temp @ pad) (frame, 0, 0) =
         Some (pass_rec nb fh temp, nb * (2 * fh), nb * (2 * fh))"
  using coarse_branches_spec [of ld st 0 nb fh "temp @ pad" frame, OF ld st] assms(3-)
    spec_pass_pass_rec [of nb fh frame "temp @ pad"]
  by (simp add: spec_pass_def pass_rec_prefix)

lemma coarse_stages_run:
  assumes ld: "\<And>buf off. 16 dvd off \<Longrightarrow> ld buf off = mm_loadu_si128 buf off"
    and st: "\<And>buf off v. 16 dvd off \<Longrightarrow> st buf off v = mm_storeu_si128 buf off v"
    and "4 + d \<le> k" "k < 32" "length frame = 2 ^ k" "length temp = 2 ^ k"
  shows "coarse_stages ld st (of_nat (4 + d)) (2 ^ k)
           (frame, temp @ pad, 2 ^ (k - (4 + d)), drop_bit 1 (2 ^ (4 + d))) =
         Some (if d = 0 then frame else passes_above 4 d (2 ^ (k - (4 + d))) temp,
               passes_above 4 d (2 ^ (k - (4 + d))) temp @ pad, 2 ^ (k - 4),
               drop_bit 1 (2 ^ 4))"
  using assms(3-)
proof (induction d arbitrary: frame temp)
  case 0
  show ?case
    using stage_not_gt_4 by (subst coarse_stages.simps) simp
next
  case (Suc d)
  let ?nb = "2 ^ (k - (4 + Suc d)) :: nat"
  let ?fh = "2 ^ (4 + d) :: nat"
  let ?F = "pass_rec ?nb ?fh temp"
  have b32: "4 + Suc d < 32" "4 + d < 31" "4 + d < 32" "k - (4 + Suc d) < 32"
    using Suc.prems by simp_all
  have kn: "k - (4 + d) = Suc (k - (4 + Suc d))" using Suc.prems by simp
  have tot: "?nb * (2 * ?fh) = 2 ^ k"
    using pow2_split [of "4 + d" k] Suc.prems by simp
  have e: "(2 ^ (4 + Suc d) :: u32) = 2 * 2 ^ (4 + d)"
    by (simp only: add_Suc_right power_Suc)
  have fh: "drop_bit 1 (2 ^ (4 + Suc d) :: u32) = 2 ^ (4 + d)"
    unfolding e One_nat_def by (rule drop_bit_pow2 [OF b32(2)])
  have un: "unat (2 ^ (k - (4 + Suc d)) :: u32) = ?nb" "unat (2 ^ (4 + d) :: u32) = ?fh"
    using b32 by (simp_all add: unat_pow2)
  have cb: "coarse_branches ld st 0 ?nb ?fh (temp @ pad) (frame, 0, 0) =
            Some (?F, ?nb * (2 * ?fh), ?nb * (2 * ?fh))"
    using Suc.prems tot pow2_16_dvd [of d]
    by (intro coarse_pass_pass_rec [OF ld st]) simp_all
  have lenF: "length ?F = 2 ^ k" using tot by simp
  have cp: "memcpy (temp @ pad) ?F (unat (2 ^ k :: u32)) = Some (?F @ pad)"
    using Suc.prems lenF by (simp add: memcpy_def unat_pow2)
  have nb': "push_bit 1 (2 ^ (k - (4 + Suc d)) :: u32) = 2 ^ (k - (4 + d))"
    by (simp add: kn push_bit_eq_mult)
  have step: "coarse_stages ld st (of_nat (4 + Suc d)) (2 ^ k)
                (frame, temp @ pad, 2 ^ (k - (4 + Suc d)), drop_bit 1 (2 ^ (4 + Suc d))) =
              coarse_stages ld st (of_nat (4 + d)) (2 ^ k)
                (?F, ?F @ pad, 2 ^ (k - (4 + d)), drop_bit 1 (2 ^ (4 + d)))"
    by (subst coarse_stages.simps)
       (simp only: stage_gt_4 [OF b32(1)] if_True fh un cb cp nb' stage_pred Let_def
          bind.bind_lunit prod.case)
  have IH: "coarse_stages ld st (of_nat (4 + d)) (2 ^ k)
              (?F, ?F @ pad, 2 ^ (k - (4 + d)), drop_bit 1 (2 ^ (4 + d))) =
         Some (if d = 0 then ?F else passes_above 4 d (2 ^ (k - (4 + d))) ?F,
               passes_above 4 d (2 ^ (k - (4 + d))) ?F @ pad, 2 ^ (k - 4),
               drop_bit 1 (2 ^ 4))"
    using Suc.prems lenF by (intro Suc.IH) simp_all
  have pa: "passes_above 4 (Suc d) ?nb temp = passes_above 4 d (2 ^ (k - (4 + d))) ?F"
    by (simp add: kn)
  show ?case
    unfolding step IH pa by (cases d) simp_all
qed

lemma fine_chunk_unfold:
  "fine_chunk v =
     mm_xor_si128 (mm_and_si128 (mm_bsrli_si128
       (mm_xor_si128 (mm_and_si128 (mm_bsrli_si128
          (mm_xor_si128 (mm_and_si128 (mm_bsrli_si128
             (mm_xor_si128 (mm_and_si128 (mm_bsrli_si128
                (mm_shuffle_epi8 v shuffle_stage4) 8) mask_stage4)
                (mm_shuffle_epi8 v shuffle_stage4)) 4) mask_stage3)
             (mm_xor_si128 (mm_and_si128 (mm_bsrli_si128
                (mm_shuffle_epi8 v shuffle_stage4) 8) mask_stage4)
                (mm_shuffle_epi8 v shuffle_stage4))) 2) mask_stage2)
          (mm_xor_si128 (mm_and_si128 (mm_bsrli_si128
             (mm_xor_si128 (mm_and_si128 (mm_bsrli_si128
                (mm_shuffle_epi8 v shuffle_stage4) 8) mask_stage4)
                (mm_shuffle_epi8 v shuffle_stage4)) 4) mask_stage3)
             (mm_xor_si128 (mm_and_si128 (mm_bsrli_si128
                (mm_shuffle_epi8 v shuffle_stage4) 8) mask_stage4)
                (mm_shuffle_epi8 v shuffle_stage4)))) 1) mask_stage1)
       (mm_xor_si128 (mm_and_si128 (mm_bsrli_si128
          (mm_xor_si128 (mm_and_si128 (mm_bsrli_si128
             (mm_xor_si128 (mm_and_si128 (mm_bsrli_si128
                (mm_shuffle_epi8 v shuffle_stage4) 8) mask_stage4)
                (mm_shuffle_epi8 v shuffle_stage4)) 4) mask_stage3)
             (mm_xor_si128 (mm_and_si128 (mm_bsrli_si128
                (mm_shuffle_epi8 v shuffle_stage4) 8) mask_stage4)
                (mm_shuffle_epi8 v shuffle_stage4))) 2) mask_stage2)
          (mm_xor_si128 (mm_and_si128 (mm_bsrli_si128
             (mm_xor_si128 (mm_and_si128 (mm_bsrli_si128
                (mm_shuffle_epi8 v shuffle_stage4) 8) mask_stage4)
                (mm_shuffle_epi8 v shuffle_stage4)) 4) mask_stage3)
             (mm_xor_si128 (mm_and_si128 (mm_bsrli_si128
                (mm_shuffle_epi8 v shuffle_stage4) 8) mask_stage4)
                (mm_shuffle_epi8 v shuffle_stage4))))"
  by (simp only: fine_chunk_def Let_def)


lemma length_fine_pure: "16 * n \<le> length xs \<Longrightarrow> length (fine_pure n xs) = 16 * n"
proof (induction n arbitrary: xs)
  case 0
  then show ?case by simp
next
  case (Suc n)
  then have "length (take 16 xs) = 16" "16 * n \<le> length (drop 16 xs)" by simp_all
  with Suc.IH [of "drop 16 xs"] show ?case by (simp add: length_fine_chunk)
qed

lemma fine_pure_snoc:
  "fine_pure (Suc n) xs = fine_pure n xs @ fine_chunk (take 16 (drop (16 * n) xs))"
proof (induction n arbitrary: xs)
  case 0
  then show ?case by simp
next
  case (Suc n)
  have "fine_pure (Suc (Suc n)) xs = fine_chunk (take 16 xs) @ fine_pure (Suc n) (drop 16 xs)"
    by simp
  also have "\<dots> = fine_chunk (take 16 xs) @ fine_pure n (drop 16 xs) @
                     fine_chunk (take 16 (drop (16 * n) (drop 16 xs)))"
    by (simp only: Suc.IH)
  finally show ?case by (simp add: add.commute)
qed

lemma fine_pure_prefix: "16 * n \<le> length A \<Longrightarrow> fine_pure n (A @ B) = fine_pure n A"
proof (induction n arbitrary: A)
  case 0
  then show ?case by simp
next
  case (Suc n)
  then have "16 \<le> length A" "16 * n \<le> length (drop 16 A)" by simp_all
  with Suc.IH [of "drop 16 A"] show ?case by simp
qed

lemma fine_stop: "fine_branches ld st nb nb temp s = Some s"
proof -
  obtain f p q r where s: "s = (f, p, q, r)" using prod_cases4 by blast
  show ?thesis unfolding s by (subst fine_branches.simps) simp
qed

lemma fine_step:
  assumes ld: "\<And>buf off. 16 dvd off \<Longrightarrow> ld buf off = mm_loadu_si128 buf off"
    and st: "\<And>buf off v. 16 dvd off \<Longrightarrow> st buf off v = mm_storeu_si128 buf off v"
    and "m < nb" "16 * m + 32 \<le> length temp" "16 * m + 16 \<le> length frame"
  shows "fine_branches ld st m nb temp (frame, 16 * m, 16 * m + 16, v) =
         fine_branches ld st (Suc m) nb temp
           (store16 frame (16 * m) (fine_chunk v), 16 * Suc m, 16 * Suc m + 16,
            take 16 (drop (16 * Suc m) temp))"
proof -
  have l0: "ld temp (16 * m + 16) = Some (take 16 (drop (16 * m + 16) temp))"
    using assms(4) by (simp add: ld mm_loadu_si128_in)
  have s0: "st frame (16 * m) (fine_chunk v) = Some (store16 frame (16 * m) (fine_chunk v))"
    using assms(5) by (simp add: st mm_storeu_si128_store16)
  show ?thesis
    by (subst fine_branches.simps)
       (simp only: assms(3) if_True l0 bind.bind_lunit Let_def fine_chunk_unfold [symmetric] s0,
          simp add: add.commute)
qed

lemma fine_step_fault:
  assumes ld: "\<And>buf off. 16 dvd off \<Longrightarrow> ld buf off = mm_loadu_si128 buf off"
    and "m < nb" "length temp < 16 * m + 32"
  shows "fine_branches ld st m nb temp (frame, 16 * m, 16 * m + 16, v) = None"
proof -
  have l0: "ld temp (16 * m + 16) = None"
    using assms(3) by (simp add: ld mm_loadu_si128_def)
  show ?thesis
    by (subst fine_branches.simps)
       (simp only: assms(2) if_True l0 Let_def bind.bind_lzero)
qed

lemma fine_branches_prefix:
  assumes ld: "\<And>buf off. 16 dvd off \<Longrightarrow> ld buf off = mm_loadu_si128 buf off"
    and st: "\<And>buf off v. 16 dvd off \<Longrightarrow> st buf off v = mm_storeu_si128 buf off v"
    and "m \<le> nb" "16 * m + 16 \<le> length temp" "length frame = 16 * nb"
  shows "fine_branches ld st 0 nb temp (frame, 0, 16, take 16 temp) =
         fine_branches ld st m nb temp
           (fine_pure m temp @ drop (16 * m) frame, 16 * m, 16 * m + 16,
            take 16 (drop (16 * m) temp))"
  using assms(3-)
proof (induction m)
  case 0
  then show ?case by simp
next
  case (Suc m)
  let ?fr = "fine_pure m temp @ drop (16 * m) frame"
  let ?v = "take 16 (drop (16 * m) temp)"
  have lenp: "length (fine_pure m temp) = 16 * m"
    using Suc.prems by (intro length_fine_pure) simp
  have lenc: "length (fine_chunk ?v) = 16"
    using Suc.prems by (intro length_fine_chunk) simp
  have IH: "fine_branches ld st 0 nb temp (frame, 0, 16, take 16 temp) =
            fine_branches ld st m nb temp (?fr, 16 * m, 16 * m + 16, ?v)"
    using Suc.prems by (intro Suc.IH) simp_all
  have step: "fine_branches ld st m nb temp (?fr, 16 * m, 16 * m + 16, ?v) =
         fine_branches ld st (Suc m) nb temp
           (store16 ?fr (16 * m) (fine_chunk ?v), 16 * Suc m, 16 * Suc m + 16,
            take 16 (drop (16 * Suc m) temp))"
    using Suc.prems lenp by (intro fine_step [OF ld st]) simp_all
  have "store16 ?fr (16 * m) (fine_chunk ?v) =
        fine_pure m temp @ fine_chunk ?v @ drop (16 * m + 16) frame"
    using lenp lenc by (simp add: store16_def add.commute)
  then have fr: "store16 ?fr (16 * m) (fine_chunk ?v) =
        fine_pure (Suc m) temp @ drop (16 * Suc m) frame"
    by (simp add: fine_pure_snoc add.commute del: fine_pure.simps)
  show ?case
    unfolding IH step fr by (rule refl)
qed

lemma fine_branches_padded:
  assumes ld: "\<And>buf off. 16 dvd off \<Longrightarrow> ld buf off = mm_loadu_si128 buf off"
    and st: "\<And>buf off v. 16 dvd off \<Longrightarrow> st buf off v = mm_storeu_si128 buf off v"
    and "length temp = 16 * nb" "length frame = 16 * nb" "16 \<le> length pad"
  shows "fine_branches ld st 0 nb (temp @ pad) (frame, 0, 16, take 16 (temp @ pad)) =
         Some (fine_pure nb temp, 16 * nb, 16 * nb + 16, take 16 pad)"
  using fine_branches_prefix [of ld st nb nb "temp @ pad" frame, OF ld st] assms(3-)
  by (simp add: fine_stop fine_pure_prefix)

lemma fine_branches_fault:
  assumes ld: "\<And>buf off. 16 dvd off \<Longrightarrow> ld buf off = mm_loadu_si128 buf off"
    and st: "\<And>buf off v. 16 dvd off \<Longrightarrow> st buf off v = mm_storeu_si128 buf off v"
    and "0 < nb" "length temp = 16 * nb" "length frame = 16 * nb"
  shows "fine_branches ld st 0 nb temp (frame, 0, 16, take 16 temp) = None"
proof -
  obtain m where nb: "nb = Suc m" using assms(3) by (cases nb) simp_all
  have "fine_branches ld st 0 nb temp (frame, 0, 16, take 16 temp) =
        fine_branches ld st m nb temp
          (fine_pure m temp @ drop (16 * m) frame, 16 * m, 16 * m + 16,
           take 16 (drop (16 * m) temp))"
    using assms(4,5) nb by (intro fine_branches_prefix [OF ld st]) simp_all
  also have "\<dots> = None"
    using assms(4) nb by (intro fine_step_fault [OF ld]) simp_all
  finally show ?thesis .
qed

lemma mm_load_si128_aligned:
  "16 dvd addr \<Longrightarrow> 16 dvd off \<Longrightarrow> mm_load_si128 addr buf off = mm_loadu_si128 buf off"
  by (simp add: mm_load_si128_def)

lemma mm_store_si128_aligned:
  "16 dvd addr \<Longrightarrow> 16 dvd off \<Longrightarrow> mm_store_si128 addr buf off v = mm_storeu_si128 buf off v"
  by (simp add: mm_store_si128_def)

lemma interleave_run_padded:
  assumes "length msk = unat frame_size" "length target = unat frame_size"
    and "length frozen = frozen_before msk (unat frame_size)"
    and "length info = info_before msk (unat frame_size)"
  shows "interleave_frozen_and_info_bits (target @ pad) msk frozen info frame_size =
         Some (interleaved msk frozen info (unat frame_size) @ pad)"
  using interleave_loop_run [of 0 "unat frame_size" msk "target @ pad" frozen info] assms
  by (simp add: interleave_frozen_and_info_bits_def interleaved_def frozen_before_def
      info_before_def)

lemma fine_pure_encodes:
  assumes "4 \<le> k" "length I = 2 ^ k"
  shows "fine_pure (2 ^ (k - 4)) (passes_above 4 (k - 4) (Suc 0) I) = upasses k (Suc 0) I"
proof -
  let ?X = "passes_above 4 (k - 4) (Suc 0) I"
  have pw: "(2::nat) ^ k = 16 * 2 ^ (k - 4)"
    using power_add [of "2::nat" 4 "k - 4"] assms(1) by simp
  have lenX: "length ?X = 2 ^ k"
    using length_passes_above [of I 1 4 "k - 4"] assms by simp
  have "fine_pure (2 ^ (k - 4)) ?X = upasses 4 (2 ^ (k - 4)) ?X"
    using lenX pw by (intro fine_pure_upasses) simp
  also have "\<dots> = upasses (4 + (k - 4)) (Suc 0) I"
    by (simp add: upasses_split [of 4 "k - 4"])
  finally show ?thesis using assms(1) by simp
qed

lemma encodepolar_ssse3_padded:
  assumes ld: "\<And>buf off. 16 dvd off \<Longrightarrow> ld buf off = mm_loadu_si128 buf off"
    and st: "\<And>buf off v. 16 dvd off \<Longrightarrow> st buf off v = mm_storeu_si128 buf off v"
    and "4 \<le> k" "k < 32" "length frame = 2 ^ k" "length temp = 2 ^ k" "length msk = 2 ^ k"
    and "length frozen = frozen_before msk (2 ^ k)" "length info = info_before msk (2 ^ k)"
    and "16 \<le> length pad"
  shows "encodepolar_ssse3 ld st frame (temp @ pad) msk frozen info (2 ^ k) =
         Some (upasses k (Suc 0) (interleaved msk frozen info (2 ^ k)),
               passes_above 4 (k - 4) (Suc 0) (interleaved msk frozen info (2 ^ k)) @ pad,
               2 ^ k + 16, take 16 pad)"
proof -
  let ?I = "interleaved msk frozen info (2 ^ k)"
  let ?X = "passes_above 4 (k - 4) (Suc 0) ?I"
  let ?fc = "if k - 4 = 0 then frame else ?X"
  let ?nb = "2 ^ (k - 4) :: nat"
  have il: "interleave_frozen_and_info_bits (temp @ pad) msk frozen info (2 ^ k) =
            Some (?I @ pad)"
    using interleave_run_padded [of msk "2 ^ k" temp frozen info pad] assms(3-)
    by (simp add: unat_pow2)
  have pw: "(2::nat) ^ k = 16 * ?nb"
    using power_add [of "2::nat" 4 "k - 4"] assms(3) by simp
  have lenX: "length ?X = 2 ^ k"
    using length_passes_above [of ?I 1 4 "k - 4"] assms(3) by simp
  have lenfc: "length ?fc = 2 ^ k" using lenX assms(5) by simp
  have cs: "coarse_stages ld st (of_nat k) (2 ^ k) (frame, ?I @ pad, 1, drop_bit 1 (2 ^ k)) =
            Some (?fc, ?X @ pad, 2 ^ (k - 4), drop_bit 1 (2 ^ 4))"
    using coarse_stages_run [of ld st "k - 4" k frame ?I pad, OF ld st] assms(3-5) by simp
  have l0: "ld (?X @ pad) 0 = Some (take 16 (?X @ pad))"
    using assms(10) by (simp add: ld mm_loadu_si128_def)
  have fb: "fine_branches ld st 0 ?nb (?X @ pad) (?fc, 0, 16, take 16 (?X @ pad)) =
            Some (fine_pure ?nb ?X, 16 * ?nb, 16 * ?nb + 16, take 16 pad)"
    using lenX lenfc pw assms(10) by (intro fine_branches_padded [OF ld st]) simp_all
  have fp: "fine_pure ?nb ?X = upasses k (Suc 0) ?I"
    using assms(3) by (intro fine_pure_encodes) simp_all
  have un: "unat (2 ^ (k - 4) :: u32) = ?nb"
    using assms(4) by (intro unat_pow2) simp
  show ?thesis
    unfolding encodepolar_ssse3_def
    by (simp only: Let_def log2_pow2 [OF assms(4)] il cs l0 fb fp un pw [symmetric]
        bind.bind_lunit prod.case)
qed

lemma encodepolar_ssse3_fault:
  assumes ld: "\<And>buf off. 16 dvd off \<Longrightarrow> ld buf off = mm_loadu_si128 buf off"
    and st: "\<And>buf off v. 16 dvd off \<Longrightarrow> st buf off v = mm_storeu_si128 buf off v"
    and "4 \<le> k" "k < 32" "length frame = 2 ^ k" "length temp = 2 ^ k" "length msk = 2 ^ k"
    and "length frozen = frozen_before msk (2 ^ k)" "length info = info_before msk (2 ^ k)"
  shows "encodepolar_ssse3 ld st frame temp msk frozen info (2 ^ k) = None"
proof -
  let ?I = "interleaved msk frozen info (2 ^ k)"
  let ?X = "passes_above 4 (k - 4) (Suc 0) ?I"
  let ?fc = "if k - 4 = 0 then frame else ?X"
  let ?nb = "2 ^ (k - 4) :: nat"
  have il: "interleave_frozen_and_info_bits temp msk frozen info (2 ^ k) = Some ?I"
    using interleave_run [of msk "2 ^ k" temp frozen info] assms(3-) by (simp add: unat_pow2)
  have pw: "(2::nat) ^ k = 16 * ?nb"
    using power_add [of "2::nat" 4 "k - 4"] assms(3) by simp
  have lenX: "length ?X = 2 ^ k"
    using length_passes_above [of ?I 1 4 "k - 4"] assms(3) by simp
  have lenfc: "length ?fc = 2 ^ k" using lenX assms(5) by simp
  have cs: "coarse_stages ld st (of_nat k) (2 ^ k) (frame, ?I, 1, drop_bit 1 (2 ^ k)) =
            Some (?fc, ?X, 2 ^ (k - 4), drop_bit 1 (2 ^ 4))"
    using coarse_stages_run [of ld st "k - 4" k frame ?I "[]", OF ld st] assms(3-5) by simp
  have "(2::nat) ^ 4 \<le> 2 ^ k"
    using assms(3) by (intro power_increasing) simp_all
  then have l0: "ld ?X 0 = Some (take 16 ?X)"
    using lenX by (simp add: ld mm_loadu_si128_def)
  have fb: "fine_branches ld st 0 ?nb ?X (?fc, 0, 16, take 16 ?X) = None"
    using lenX lenfc pw by (intro fine_branches_fault [OF ld st]) simp_all
  have un: "unat (2 ^ (k - 4) :: u32) = ?nb"
    using assms(4) by (intro unat_pow2) simp
  show ?thesis
    unfolding encodepolar_ssse3_def
    by (simp only: Let_def log2_pow2 [OF assms(4)] il cs l0 fb un
        bind.bind_lunit bind.bind_lzero prod.case)
qed

text \<open>
  With at least 16 more bytes after the \<open>frame_size\<close> bytes of \<open>temp\<close>, both SSSE3 encoders
  return the \<open>frame\<close> of the scalar encoder, for every \<open>frame_size = 2 ^ k\<close> with \<open>k \<ge> 4\<close>;
  for the aligned encoder the addresses of \<open>frame\<close> and \<open>temp\<close> are multiples of 16.
\<close>

lemma ssse3_matches_generic_padded:
  assumes "4 \<le> k" "k < 32" "length frame = 2 ^ k" "length temp = 2 ^ k" "length msk = 2 ^ k"
    and "length frozen = frozen_before msk (2 ^ k)" "length info = info_before msk (2 ^ k)"
    and "16 dvd frame_addr" "16 dvd temp_addr" "16 \<le> length pad"
  shows "\<exists>F T.
           volk_8u_x3_encodepolar_8u_x2_generic frame temp msk frozen info (2 ^ k) = Some (F, F) \<and>
           volk_8u_x3_encodepolar_8u_x2_u_ssse3 frame (temp @ pad) msk frozen info (2 ^ k) =
             Some (F, T @ pad) \<and>
           volk_8u_x3_encodepolar_8u_x2_a_ssse3 frame_addr temp_addr
             frame (temp @ pad) msk frozen info (2 ^ k) = Some (F, T @ pad)"
proof -
  have gen: "volk_8u_x3_encodepolar_8u_x2_generic frame temp msk frozen info (2 ^ k) =
             Some (upasses k (Suc 0) (interleaved msk frozen info (2 ^ k)),
                   upasses k (Suc 0) (interleaved msk frozen info (2 ^ k)))"
    using generic_result [OF assms(2-7)] assms(1) by simp
  have u: "encodepolar_ssse3 mm_loadu_si128 mm_storeu_si128 frame (temp @ pad) msk frozen info
             (2 ^ k) =
         Some (upasses k (Suc 0) (interleaved msk frozen info (2 ^ k)),
               passes_above 4 (k - 4) (Suc 0) (interleaved msk frozen info (2 ^ k)) @ pad,
               2 ^ k + 16, take 16 pad)"
    by (rule encodepolar_ssse3_padded [OF _ _ assms(1-7) assms(10)]) simp_all
  have a: "encodepolar_ssse3 (mm_load_si128 temp_addr) (mm_store_si128 frame_addr)
             frame (temp @ pad) msk frozen info (2 ^ k) =
         Some (upasses k (Suc 0) (interleaved msk frozen info (2 ^ k)),
               passes_above 4 (k - 4) (Suc 0) (interleaved msk frozen info (2 ^ k)) @ pad,
               2 ^ k + 16, take 16 pad)"
    using assms(8,9)
    by (intro encodepolar_ssse3_padded [OF _ _ assms(1-7) assms(10)])
       (simp_all add: mm_load_si128_aligned mm_store_si128_aligned)
  show ?thesis
    by (simp add: gen u a volk_8u_x3_encodepolar_8u_x2_u_ssse3_def
        volk_8u_x3_encodepolar_8u_x2_a_ssse3_def)
qed

text \<open>
  Claim C1. For \<open>frame_size \<ge> 16\<close> the scalar encoder and both SSSE3 encoders are to leave
  the same contents in \<open>frame\<close>. With \<open>frame_size = 16\<close> and a \<open>temp\<close> of exactly 16 bytes,
  the scalar encoder returns the encoded \<open>frame\<close>, and both SSSE3 encoders have no result:
  the last iteration of their last loop loads the 16 bytes at offset 16 of \<open>temp\<close>, out of
  range, before it stores the last chunk of \<open>frame\<close>.
\<close>

theorem ssse3_faults_on_exact_temp:
  "volk_8u_x3_encodepolar_8u_x2_generic (replicate 16 7) (replicate 16 9)
       [0,0,0,0,1,0,0,0,0,0,1,0,0,0,0,1] [0,1,0] [1,0,1,1,0,0,1,0,1,1,1,0,1] 16 =
     Some ([1, 1, 1, 0, 0, 1, 0, 1, 0, 0, 1, 0, 1, 1, 1, 0],
           [1, 1, 1, 0, 0, 1, 0, 1, 0, 0, 1, 0, 1, 1, 1, 0]) \<and>
   volk_8u_x3_encodepolar_8u_x2_u_ssse3 (replicate 16 7) (replicate 16 9)
       [0,0,0,0,1,0,0,0,0,0,1,0,0,0,0,1] [0,1,0] [1,0,1,1,0,0,1,0,1,1,1,0,1] 16 = None \<and>
   volk_8u_x3_encodepolar_8u_x2_a_ssse3 32 64 (replicate 16 7) (replicate 16 9)
       [0,0,0,0,1,0,0,0,0,0,1,0,0,0,0,1] [0,1,0] [1,0,1,1,0,0,1,0,1,1,1,0,1] 16 = None"
proof -
  have g: "volk_8u_x3_encodepolar_8u_x2_generic (replicate 16 7) (replicate 16 9)
       [0,0,0,0,1,0,0,0,0,0,1,0,0,0,0,1] [0,1,0] [1,0,1,1,0,0,1,0,1,1,1,0,1] 16 =
     Some ([1, 1, 1, 0, 0, 1, 0, 1, 0, 0, 1, 0, 1, 1, 1, 0],
           [1, 1, 1, 0, 0, 1, 0, 1, 0, 0, 1, 0, 1, 1, 1, 0])"
    by code_simp
  have u: "encodepolar_ssse3 mm_loadu_si128 mm_storeu_si128 (replicate 16 7) (replicate 16 9)
       [0,0,0,0,1,0,0,0,0,0,1,0,0,0,0,1] [0,1,0] [1,0,1,1,0,0,1,0,1,1,1,0,1] 16 = None"
    using encodepolar_ssse3_fault [of mm_loadu_si128 mm_storeu_si128 4 "replicate 16 7"
        "replicate 16 9" "[0,0,0,0,1,0,0,0,0,0,1,0,0,0,0,1]" "[0,1,0]"
        "[1,0,1,1,0,0,1,0,1,1,1,0,1]"]
    by (simp add: frozen_before_def info_before_def)
  have a: "encodepolar_ssse3 (mm_load_si128 64) (mm_store_si128 32) (replicate 16 7) (replicate 16 9)
       [0,0,0,0,1,0,0,0,0,0,1,0,0,0,0,1] [0,1,0] [1,0,1,1,0,0,1,0,1,1,1,0,1] 16 = None"
    using encodepolar_ssse3_fault [of "mm_load_si128 64" "mm_store_si128 32" 4 "replicate 16 7"
        "replicate 16 9" "[0,0,0,0,1,0,0,0,0,0,1,0,0,0,0,1]" "[0,1,0]"
        "[1,0,1,1,0,0,1,0,1,1,1,0,1]"]
    by (simp add: frozen_before_def info_before_def mm_load_si128_aligned
        mm_store_si128_aligned)
  show ?thesis
    by (simp add: g u a volk_8u_x3_encodepolar_8u_x2_u_ssse3_def
        volk_8u_x3_encodepolar_8u_x2_a_ssse3_def)
qed

lemma fine_last_iteration_fault:
  assumes ld: "\<And>buf off. 16 dvd off \<Longrightarrow> ld buf off = mm_loadu_si128 buf off"
    and "0 < nb" "length temp = 16 * nb"
  shows "fine_branches ld st (nb - 1) nb temp (frame, 16 * nb - 16, 16 * nb, v) = None"
proof -
  obtain m where nb: "nb = Suc m" using assms(2) by (cases nb) simp_all
  have "fine_branches ld st m nb temp (frame, 16 * m, 16 * m + 16, v) = None"
    using assms(3) nb by (intro fine_step_fault [OF ld]) simp_all
  then show ?thesis by (simp add: nb add.commute)
qed

lemma fine_last_iteration_padded:
  assumes ld: "\<And>buf off. 16 dvd off \<Longrightarrow> ld buf off = mm_loadu_si128 buf off"
    and st: "\<And>buf off v. 16 dvd off \<Longrightarrow> st buf off v = mm_storeu_si128 buf off v"
    and "0 < nb" "length temp = 16 * nb" "length frame = 16 * nb" "16 \<le> length pad"
  shows "fine_branches ld st (nb - 1) nb (temp @ pad) (frame, 16 * nb - 16, 16 * nb, v) =
         Some (store16 frame (16 * nb - 16) (fine_chunk v), 16 * nb, 16 * nb + 16, take 16 pad)"
proof -
  obtain m where nb: "nb = Suc m" using assms(3) by (cases nb) simp_all
  have "fine_branches ld st m nb (temp @ pad) (frame, 16 * m, 16 * m + 16, v) =
        fine_branches ld st (Suc m) nb (temp @ pad)
          (store16 frame (16 * m) (fine_chunk v), 16 * Suc m, 16 * Suc m + 16,
           take 16 (drop (16 * Suc m) (temp @ pad)))"
    using assms(4-) nb by (intro fine_step [OF ld st]) simp_all
  then show ?thesis
    using assms(4) by (simp add: nb fine_stop add.commute)
qed

text \<open>
  Claim C10. For every \<open>frame_size = 2 ^ k\<close> with \<open>k \<ge> 4\<close>, the last iteration of the
  last loop of both SSSE3 encoders starts with \<open>temp_ptr = frame_size\<close> and loads 16
  bytes from that offset of \<open>temp\<close>. When \<open>temp\<close> has only \<open>frame_size\<close> bytes the load is out
  of range, and the iteration and the encoder have no result. When bytes \<open>pad\<close> follow,
  the load yields the first 16 of them, they are what \<open>r_temp0\<close> holds when the encoder
  returns, and the encoder returns the \<open>frame\<close> of the scalar encoder whatever they are, so
  no byte of \<open>frame\<close> depends on the loaded value.
\<close>

theorem ssse3_last_load_past_temp:
  assumes "4 \<le> k" "k < 32" "length frame = 2 ^ k" "length temp = 2 ^ k" "length msk = 2 ^ k"
    and "length frozen = frozen_before msk (2 ^ k)" "length info = info_before msk (2 ^ k)"
    and "16 dvd frame_addr" "16 dvd temp_addr"
  shows "\<exists>F T.
           volk_8u_x3_encodepolar_8u_x2_generic frame temp msk frozen info (2 ^ k) = Some (F, F) \<and>
           length T = 2 ^ k \<and>
           mm_loadu_si128 T (2 ^ k) = None \<and>
           mm_load_si128 temp_addr T (2 ^ k) = None \<and>
           encodepolar_ssse3 mm_loadu_si128 mm_storeu_si128 frame temp msk frozen info (2 ^ k) =
             None \<and>
           encodepolar_ssse3 (mm_load_si128 temp_addr) (mm_store_si128 frame_addr)
             frame temp msk frozen info (2 ^ k) = None \<and>
           (\<forall>F' v. length F' = 2 ^ k \<longrightarrow>
              fine_branches mm_loadu_si128 mm_storeu_si128 (2 ^ (k - 4) - 1) (2 ^ (k - 4)) T
                (F', 2 ^ k - 16, 2 ^ k, v) = None \<and>
              fine_branches (mm_load_si128 temp_addr) (mm_store_si128 frame_addr)
                (2 ^ (k - 4) - 1) (2 ^ (k - 4)) T (F', 2 ^ k - 16, 2 ^ k, v) = None) \<and>
           (\<forall>pad. 16 \<le> length pad \<longrightarrow>
              mm_loadu_si128 (T @ pad) (2 ^ k) = Some (take 16 pad) \<and>
              encodepolar_ssse3 mm_loadu_si128 mm_storeu_si128 frame (temp @ pad)
                msk frozen info (2 ^ k) = Some (F, T @ pad, 2 ^ k + 16, take 16 pad) \<and>
              encodepolar_ssse3 (mm_load_si128 temp_addr) (mm_store_si128 frame_addr)
                frame (temp @ pad) msk frozen info (2 ^ k) =
                Some (F, T @ pad, 2 ^ k + 16, take 16 pad) \<and>
              (\<forall>F' v. length F' = 2 ^ k \<longrightarrow>
                 fine_branches mm_loadu_si128 mm_storeu_si128 (2 ^ (k - 4) - 1) (2 ^ (k - 4))
                   (T @ pad) (F', 2 ^ k - 16, 2 ^ k, v) =
                   Some (store16 F' (2 ^ k - 16) (fine_chunk v), 2 ^ k, 2 ^ k + 16,
                         take 16 pad) \<and>
                 fine_branches (mm_load_si128 temp_addr) (mm_store_si128 frame_addr)
                   (2 ^ (k - 4) - 1) (2 ^ (k - 4)) (T @ pad) (F', 2 ^ k - 16, 2 ^ k, v) =
                   Some (store16 F' (2 ^ k - 16) (fine_chunk v), 2 ^ k, 2 ^ k + 16,
                         take 16 pad)))"
proof -
  let ?I = "interleaved msk frozen info (2 ^ k)"
  let ?F = "upasses k (Suc 0) ?I"
  let ?X = "passes_above 4 (k - 4) (Suc 0) ?I"
  let ?nb = "2 ^ (k - 4) :: nat"
  have ldu: "\<And>buf off. 16 dvd off \<Longrightarrow> mm_loadu_si128 buf off = mm_loadu_si128 buf off"
    and stu: "\<And>buf off v. 16 dvd off \<Longrightarrow>
                mm_storeu_si128 buf off v = mm_storeu_si128 buf off v"
    by simp_all
  have lda: "\<And>buf off. 16 dvd off \<Longrightarrow> mm_load_si128 temp_addr buf off = mm_loadu_si128 buf off"
    and sta: "\<And>buf off v. 16 dvd off \<Longrightarrow>
                mm_store_si128 frame_addr buf off v = mm_storeu_si128 buf off v"
    using assms(8,9) by (simp_all add: mm_load_si128_aligned mm_store_si128_aligned)
  have pw: "(2::nat) ^ k = 16 * ?nb"
    using power_add [of "2::nat" 4 "k - 4"] assms(1) by simp
  have nb0: "0 < ?nb" by simp
  have lenX: "length ?X = 2 ^ k"
    using length_passes_above [of ?I 1 4 "k - 4"] assms(1) by simp
  have lenX': "length ?X = 16 * ?nb" using lenX pw by simp
  have gen: "volk_8u_x3_encodepolar_8u_x2_generic frame temp msk frozen info (2 ^ k) =
             Some (?F, ?F)"
    using generic_result [OF assms(2-7)] assms(1) by simp
  have nou: "mm_loadu_si128 ?X (2 ^ k) = None"
    using lenX by (simp add: mm_loadu_si128_def)
  then have noa: "mm_load_si128 temp_addr ?X (2 ^ k) = None"
    by (simp add: mm_load_si128_def)
  have fu: "encodepolar_ssse3 mm_loadu_si128 mm_storeu_si128 frame temp msk frozen info (2 ^ k) =
            None"
    by (rule encodepolar_ssse3_fault [OF ldu stu assms(1-7)])
  have fa: "encodepolar_ssse3 (mm_load_si128 temp_addr) (mm_store_si128 frame_addr)
             frame temp msk frozen info (2 ^ k) = None"
    by (rule encodepolar_ssse3_fault [OF lda sta assms(1-7)])
  have lastu: "fine_branches mm_loadu_si128 mm_storeu_si128 (?nb - 1) ?nb ?X
                 (F', 2 ^ k - 16, 2 ^ k, v) = None" for F' v
    using fine_last_iteration_fault [of mm_loadu_si128 ?nb ?X mm_storeu_si128 F' v,
        OF ldu nb0 lenX']
    unfolding pw .
  have lasta: "fine_branches (mm_load_si128 temp_addr) (mm_store_si128 frame_addr) (?nb - 1) ?nb
                 ?X (F', 2 ^ k - 16, 2 ^ k, v) = None" for F' v
    using fine_last_iteration_fault [of "mm_load_si128 temp_addr" ?nb ?X
        "mm_store_si128 frame_addr" F' v, OF lda nb0 lenX']
    unfolding pw .
  have padl: "mm_loadu_si128 (?X @ pad) (2 ^ k) = Some (take 16 pad)" if "16 \<le> length pad" for pad
    using that lenX by (simp add: mm_loadu_si128_def)
  have pu: "encodepolar_ssse3 mm_loadu_si128 mm_storeu_si128 frame (temp @ pad)
              msk frozen info (2 ^ k) = Some (?F, ?X @ pad, 2 ^ k + 16, take 16 pad)"
    if "16 \<le> length pad" for pad
    by (rule encodepolar_ssse3_padded [OF ldu stu assms(1-7) that])
  have pa: "encodepolar_ssse3 (mm_load_si128 temp_addr) (mm_store_si128 frame_addr)
              frame (temp @ pad) msk frozen info (2 ^ k) =
              Some (?F, ?X @ pad, 2 ^ k + 16, take 16 pad)"
    if "16 \<le> length pad" for pad
    by (rule encodepolar_ssse3_padded [OF lda sta assms(1-7) that])
  have plu: "fine_branches mm_loadu_si128 mm_storeu_si128 (?nb - 1) ?nb (?X @ pad)
               (F', 2 ^ k - 16, 2 ^ k, v) =
             Some (store16 F' (2 ^ k - 16) (fine_chunk v), 2 ^ k, 2 ^ k + 16, take 16 pad)"
    if "16 \<le> length pad" "length F' = 2 ^ k" for pad F' v
    using fine_last_iteration_padded [of mm_loadu_si128 mm_storeu_si128 ?nb ?X F' pad v,
        OF ldu stu nb0 lenX'] that
    unfolding pw by simp
  have pla: "fine_branches (mm_load_si128 temp_addr) (mm_store_si128 frame_addr) (?nb - 1) ?nb
               (?X @ pad) (F', 2 ^ k - 16, 2 ^ k, v) =
             Some (store16 F' (2 ^ k - 16) (fine_chunk v), 2 ^ k, 2 ^ k + 16, take 16 pad)"
    if "16 \<le> length pad" "length F' = 2 ^ k" for pad F' v
    using fine_last_iteration_padded [of "mm_load_si128 temp_addr" "mm_store_si128 frame_addr"
        ?nb ?X F' pad v, OF lda sta nb0 lenX'] that
    unfolding pw by simp
  show ?thesis
    using gen lenX nou noa fu fa lastu lasta padl pu pa plu pla
    by (intro exI [of _ ?F] exI [of _ ?X] conjI allI impI) blast+
qed

theorem ssse3_last_load_past_temp_witness:
  "\<exists>F T.
     volk_8u_x3_encodepolar_8u_x2_generic (replicate 16 7) (replicate 16 9)
       [0,0,0,0,1,0,0,0,0,0,1,0,0,0,0,1] [0,1,0] [1,0,1,1,0,0,1,0,1,1,1,0,1] 16 = Some (F, F) \<and>
     length T = 16 \<and>
     mm_loadu_si128 T 16 = None \<and>
     mm_load_si128 64 T 16 = None \<and>
     encodepolar_ssse3 mm_loadu_si128 mm_storeu_si128 (replicate 16 7) (replicate 16 9)
       [0,0,0,0,1,0,0,0,0,0,1,0,0,0,0,1] [0,1,0] [1,0,1,1,0,0,1,0,1,1,1,0,1] 16 = None \<and>
     encodepolar_ssse3 (mm_load_si128 64) (mm_store_si128 32) (replicate 16 7) (replicate 16 9)
       [0,0,0,0,1,0,0,0,0,0,1,0,0,0,0,1] [0,1,0] [1,0,1,1,0,0,1,0,1,1,1,0,1] 16 = None \<and>
     (\<forall>F' v. length F' = 16 \<longrightarrow>
        fine_branches mm_loadu_si128 mm_storeu_si128 0 1 T (F', 0, 16, v) = None \<and>
        fine_branches (mm_load_si128 64) (mm_store_si128 32) 0 1 T (F', 0, 16, v) = None) \<and>
     (\<forall>pad. 16 \<le> length pad \<longrightarrow>
        mm_loadu_si128 (T @ pad) 16 = Some (take 16 pad) \<and>
        encodepolar_ssse3 mm_loadu_si128 mm_storeu_si128 (replicate 16 7) (replicate 16 9 @ pad)
            [0,0,0,0,1,0,0,0,0,0,1,0,0,0,0,1] [0,1,0] [1,0,1,1,0,0,1,0,1,1,1,0,1] 16 =
          Some (F, T @ pad, 32, take 16 pad) \<and>
        encodepolar_ssse3 (mm_load_si128 64) (mm_store_si128 32) (replicate 16 7) (replicate 16 9 @ pad)
            [0,0,0,0,1,0,0,0,0,0,1,0,0,0,0,1] [0,1,0] [1,0,1,1,0,0,1,0,1,1,1,0,1] 16 =
          Some (F, T @ pad, 32, take 16 pad) \<and>
        (\<forall>F' v. length F' = 16 \<longrightarrow>
           fine_branches mm_loadu_si128 mm_storeu_si128 0 1 (T @ pad) (F', 0, 16, v) =
             Some (store16 F' 0 (fine_chunk v), 16, 32, take 16 pad) \<and>
           fine_branches (mm_load_si128 64) (mm_store_si128 32) 0 1 (T @ pad) (F', 0, 16, v) =
             Some (store16 F' 0 (fine_chunk v), 16, 32, take 16 pad)))"
  using ssse3_last_load_past_temp [of 4 "replicate 16 7" "replicate 16 9"
      "[0,0,0,0,1,0,0,0,0,0,1,0,0,0,0,1]" "[0,1,0]" "[1,0,1,1,0,0,1,0,1,1,1,0,1]" 32 64]
  by (simp add: frozen_before_def info_before_def)

section \<open>Cell range and linearity of the scalar encoder\<close>

text \<open>
  For \<open>frame_size = 2 ^ k\<close> with \<open>k \<ge> 1\<close> the scalar encoder keeps the cells in
  \<open>{0, 1}\<close> and, with an all-zero mask, is linear over XOR. For \<open>frame_size = 1\<close> it
  leaves \<open>frame\<close> as it was, and both properties are lost with it.
\<close>

lemma binary_nth: "binary xs \<Longrightarrow> i < length xs \<Longrightarrow> xs ! i = 0 \<or> xs ! i = 1"
  by (simp add: binary_def list_all_length)

lemma binary_append [simp]: "binary (xs @ ys) \<longleftrightarrow> binary xs \<and> binary ys"
  by (simp add: binary_def)

lemma binary_take: "binary xs \<Longrightarrow> binary (take n xs)"
  by (auto simp: binary_def list_all_iff dest: in_set_takeD)

lemma binary_drop: "binary xs \<Longrightarrow> binary (drop n xs)"
  by (auto simp: binary_def list_all_iff dest: in_set_dropD)

lemma butterfly_binary:
  assumes "binary ys" "2 * h \<le> length ys"
  shows "binary (butterfly h ys)"
proof -
  have "\<forall>j<h. (ys ! (2 * j) XOR ys ! (2 * j + 1) = 0 \<or> ys ! (2 * j) XOR ys ! (2 * j + 1) = 1)
            \<and> (ys ! (2 * j + 1) = 0 \<or> ys ! (2 * j + 1) = 1)"
  proof (intro allI impI)
    fix j assume "j < h"
    then show "(ys ! (2 * j) XOR ys ! (2 * j + 1) = 0 \<or> ys ! (2 * j) XOR ys ! (2 * j + 1) = 1)
            \<and> (ys ! (2 * j + 1) = 0 \<or> ys ! (2 * j + 1) = 1)"
      using binary_nth [OF assms(1), of "2 * j"] binary_nth [OF assms(1), of "2 * j + 1"]
        assms(2) by auto
  qed
  then show ?thesis
    by (auto simp: butterfly_def binary_def list_all_iff)
qed

lemma pass_rec_binary:
  "binary xs \<Longrightarrow> n * (2 * h) \<le> length xs \<Longrightarrow> binary (pass_rec n h xs)"
proof (induction n arbitrary: xs)
  case 0
  then show ?case by (simp add: binary_def)
next
  case (Suc n)
  then have "binary (butterfly h (take (2 * h) xs))"
    by (intro butterfly_binary binary_take) simp_all
  moreover have "binary (pass_rec n h (drop (2 * h) xs))"
    using Suc.prems by (intro Suc.IH binary_drop) simp_all
  ultimately show ?case by simp
qed

lemma upasses_binary:
  "binary xs \<Longrightarrow> length xs = nb * 2 ^ n \<Longrightarrow> binary (upasses n nb xs)"
proof (induction n arbitrary: nb xs)
  case 0
  then show ?case by simp
next
  case (Suc n)
  have "binary (pass_rec nb (2 ^ n) xs)"
    using Suc.prems by (intro pass_rec_binary) simp_all
  moreover have "length (pass_rec nb (2 ^ n) xs) = (2 * nb) * 2 ^ n" by simp
  ultimately show ?case using Suc.IH by simp
qed

lemma interleaved_binary:
  assumes "length msk = n" "length frozen = frozen_before msk n"
    and "length info = info_before msk n" "binary frozen" "binary info"
  shows "binary (interleaved msk frozen info n)"
proof -
  have "interleaved_cell msk frozen info i = 0 \<or> interleaved_cell msk frozen info i = 1"
    if i: "i < n" for i
  proof (cases "msk ! i \<noteq> 0")
    case True
    have "frozen_before msk (Suc i) \<le> frozen_before msk n"
      using i by (intro frozen_before_mono) simp
    then have "frozen_before msk i < length frozen"
      using True i assms(1,2) by (simp add: frozen_before_Suc)
    then show ?thesis
      using True binary_nth [OF assms(4)] by (simp add: interleaved_cell_def)
  next
    case False
    have "info_before msk (Suc i) \<le> info_before msk n"
      using i by (intro info_before_mono) simp
    then have "info_before msk i < length info"
      using False i assms(1,3) by (simp add: info_before_Suc)
    then show ?thesis
      using False binary_nth [OF assms(5)] by (simp add: interleaved_cell_def)
  qed
  then show ?thesis
    by (simp add: interleaved_def binary_def list_all_iff)
qed

lemma generic_cells_binary:
  assumes "1 \<le> k" "k < 32" "length frame = 2 ^ k" "length temp = 2 ^ k" "length msk = 2 ^ k"
    and "length frozen = frozen_before msk (2 ^ k)" "length info = info_before msk (2 ^ k)"
    and "binary frozen" "binary info"
  shows "\<exists>F. volk_8u_x3_encodepolar_8u_x2_generic frame temp msk frozen info (2 ^ k) =
               Some (F, F) \<and> length F = 2 ^ k \<and> binary F"
  using generic_result [OF assms(2-7)] assms(1)
    length_upasses [of "interleaved msk frozen info (2 ^ k)" 1 k]
    upasses_binary [of "interleaved msk frozen info (2 ^ k)" 1 k]
    interleaved_binary [OF assms(5-9)]
  by simp

lemma xor4: "(a XOR c) XOR (e XOR d) = (a XOR e) XOR (c XOR d)" for a c e d :: byte
  by (simp add: xor.assoc xor.left_commute)

lemma butterfly_xor:
  assumes "2 * h \<le> length xs" "2 * h \<le> length ys"
  shows "butterfly h (map2 (XOR) xs ys) = map2 (XOR) (butterfly h xs) (butterfly h ys)"
proof (rule nth_equalityI)
  show "length (butterfly h (map2 (XOR) xs ys)) =
        length (map2 (XOR) (butterfly h xs) (butterfly h ys))" by simp
next
  fix i assume "i < length (butterfly h (map2 (XOR) xs ys))"
  then have i: "i < 2 * h" by simp
  show "butterfly h (map2 (XOR) xs ys) ! i = map2 (XOR) (butterfly h xs) (butterfly h ys) ! i"
  proof (cases "i < h")
    case True
    then show ?thesis
      using assms i by (simp add: butterfly_def nth_append xor4)
  next
    case False
    then have "i - h < h" using i by simp
    with False show ?thesis
      using assms i by (simp add: butterfly_def nth_append)
  qed
qed

lemma map2_append:
  "length xs = length ys \<Longrightarrow>
   map2 f (xs @ xs') (ys @ ys') = map2 f xs ys @ map2 f xs' ys'"
  by simp

lemma pass_rec_xor:
  "length xs = n * (2 * h) \<Longrightarrow> length ys = n * (2 * h) \<Longrightarrow>
   pass_rec n h (map2 (XOR) xs ys) = map2 (XOR) (pass_rec n h xs) (pass_rec n h ys)"
proof (induction n arbitrary: xs ys)
  case 0
  then show ?case by simp
next
  case (Suc n)
  have tk: "take (2 * h) (map2 (XOR) xs ys) = map2 (XOR) (take (2 * h) xs) (take (2 * h) ys)"
    by (simp add: take_map take_zip)
  have dr: "drop (2 * h) (map2 (XOR) xs ys) = map2 (XOR) (drop (2 * h) xs) (drop (2 * h) ys)"
    by (simp add: drop_map drop_zip)
  have b: "butterfly h (map2 (XOR) (take (2 * h) xs) (take (2 * h) ys)) =
           map2 (XOR) (butterfly h (take (2 * h) xs)) (butterfly h (take (2 * h) ys))"
    using Suc.prems by (intro butterfly_xor) simp_all
  have r: "pass_rec n h (map2 (XOR) (drop (2 * h) xs) (drop (2 * h) ys)) =
           map2 (XOR) (pass_rec n h (drop (2 * h) xs)) (pass_rec n h (drop (2 * h) ys))"
    using Suc.prems by (intro Suc.IH) simp_all
  show ?case
    by (simp only: pass_rec.simps tk dr b r) (simp add: map2_append)
qed

lemma upasses_xor:
  "length xs = nb * 2 ^ n \<Longrightarrow> length ys = nb * 2 ^ n \<Longrightarrow>
   upasses n nb (map2 (XOR) xs ys) = map2 (XOR) (upasses n nb xs) (upasses n nb ys)"
proof (induction n arbitrary: nb xs ys)
  case 0
  then show ?case by simp
next
  case (Suc n)
  have p: "pass_rec nb (2 ^ n) (map2 (XOR) xs ys) =
           map2 (XOR) (pass_rec nb (2 ^ n) xs) (pass_rec nb (2 ^ n) ys)"
    using Suc.prems by (intro pass_rec_xor) simp_all
  have "upasses n (2 * nb) (map2 (XOR) (pass_rec nb (2 ^ n) xs) (pass_rec nb (2 ^ n) ys)) =
        map2 (XOR) (upasses n (2 * nb) (pass_rec nb (2 ^ n) xs))
          (upasses n (2 * nb) (pass_rec nb (2 ^ n) ys))"
    by (intro Suc.IH) simp_all
  then show ?case by (simp only: upasses.simps p)
qed

lemma info_before_zero_mask: "i \<le> n \<Longrightarrow> info_before (replicate n 0) i = i"
  by (simp add: info_before_def)

lemma frozen_before_zero_mask: "frozen_before (replicate n 0) i = 0"
  by (simp add: frozen_before_def)

lemma interleaved_zero_mask:
  "length info = n \<Longrightarrow> interleaved (replicate n 0) [] info n = info"
  by (rule nth_equalityI)
     (simp_all add: interleaved_def interleaved_cell_def info_before_zero_mask)

lemma generic_linear:
  assumes "1 \<le> k" "k < 32"
    and "length frameA = 2 ^ k" "length tempA = 2 ^ k" "length infoA = 2 ^ k"
    and "length frameB = 2 ^ k" "length tempB = 2 ^ k" "length infoB = 2 ^ k"
    and "length frame = 2 ^ k" "length temp = 2 ^ k"
  shows "\<exists>FA FB.
           volk_8u_x3_encodepolar_8u_x2_generic frameA tempA (replicate (2 ^ k) 0) [] infoA (2 ^ k) =
             Some (FA, FA) \<and>
           volk_8u_x3_encodepolar_8u_x2_generic frameB tempB (replicate (2 ^ k) 0) [] infoB (2 ^ k) =
             Some (FB, FB) \<and>
           volk_8u_x3_encodepolar_8u_x2_generic frame temp (replicate (2 ^ k) 0) []
             (map2 (XOR) infoA infoB) (2 ^ k) =
             Some (map2 (XOR) FA FB, map2 (XOR) FA FB)"
proof -
  have run: "volk_8u_x3_encodepolar_8u_x2_generic f t (replicate (2 ^ k) 0) [] i (2 ^ k) =
             Some (upasses k (Suc 0) i, upasses k (Suc 0) i)"
    if "length f = 2 ^ k" "length t = 2 ^ k" "length i = 2 ^ k" for f t i
    using generic_result [of k f t "replicate (2 ^ k) 0" "[]" i] that assms(1,2)
    by (simp add: frozen_before_zero_mask info_before_zero_mask interleaved_zero_mask)
  have "upasses k (Suc 0) (map2 (XOR) infoA infoB) =
        map2 (XOR) (upasses k (Suc 0) infoA) (upasses k (Suc 0) infoB)"
    using assms by (intro upasses_xor) simp_all
  then show ?thesis
    using run [OF assms(3,4,5)] run [OF assms(6,7,8)]
      run [of frame temp "map2 (XOR) infoA infoB"] assms
    by simp
qed

text \<open>
  Claim C8. After the scalar encoder returns, every cell of \<open>frame\<close> is claimed to
  be 0 or 1 for every power-of-two \<open>frame_size\<close>. For \<open>frame_size = 1\<close> the encoder
  does not write \<open>frame\<close>: a \<open>frame\<close> that held 2 still holds 2, with info value 1.
  (\<open>generic_cells_binary\<close> is the claim for \<open>frame_size \<ge> 2\<close>.)
\<close>

theorem generic_frame_size_one_cell_range:
  "volk_8u_x3_encodepolar_8u_x2_generic [2] [0] [0] [] [1] 1 = Some ([2], [1])"
  using generic_result [of 0 "[2]" "[0]" "[0]" "[]" "[1]"]
  by (simp add: frozen_before_def info_before_def interleaved_def interleaved_cell_def)

text \<open>
  Claim C4. With an all-zero mask the encoding of the XOR of two info vectors is
  claimed to be the XOR of their encodings for every power-of-two \<open>frame_size\<close>. For
  \<open>frame_size = 1\<close> and a \<open>frame\<close> that held 1, the three runs on info values 1, 0 and
  \<open>1 XOR 0\<close> all leave 1 in \<open>frame\<close>, and \<open>1 XOR 1\<close> is not 1.
  (\<open>generic_linear\<close> is the claim for \<open>frame_size \<ge> 2\<close>.)
\<close>

theorem generic_frame_size_one_not_linear:
  "volk_8u_x3_encodepolar_8u_x2_generic [1] [0] [0] [] [1] 1 = Some ([1], [1]) \<and>
   volk_8u_x3_encodepolar_8u_x2_generic [1] [0] [0] [] [0] 1 = Some ([1], [0]) \<and>
   volk_8u_x3_encodepolar_8u_x2_generic [1] [0] [0] [] (map2 (XOR) [1] [0]) 1 = Some ([1], [1]) \<and>
   map2 (XOR) [1] [1] \<noteq> [1 :: byte]"
  using generic_result [of 0 "[1]" "[0]" "[0]" "[]" "[1]"]
    generic_result [of 0 "[1]" "[0]" "[0]" "[]" "[0]"]
  by (simp add: frozen_before_def info_before_def interleaved_def interleaved_cell_def)

end
